theory Spec2Isabelle
  imports
    Complex_Main
    "HOL-Library.Char_ord"
    "HOL-Library.List_Lexorder"
    "HOL-Library.Mapping"
    "HOL-Library.AList_Mapping"
begin

section \<open>Assumption-free anomaly scoring (assumption\_free.py)\<close>

text \<open>
  The module \<^verbatim>\<open>healthmonitordaemon/assumption_free.py\<close> discretises two sliding
  windows of a time series with SAX, counts the two-letter subwords of the resulting
  words, lays the counts out as two bitmaps and scores their squared distance.

  Conventions of the embedding.
  \<^item> A datapoint is a floating-point number of type \<open>fl\<close>: finite, infinite or \<open>nan\<close>.
    The arithmetic of the discretizer is floating-point arithmetic: every operation
    rounds, overflows to an infinity and propagates \<open>nan\<close>, because a \<open>nan\<close> among the
    means of the sub-segments makes the source raise. The rounding to a double is the
    parameter \<open>rnd\<close> of the functions that compute with datapoints.
  \<^item> The counts of the frequency tables are whole numbers far below \<open>2\<^sup>5\<^sup>3\<close>, which
    floating-point arithmetic adds exactly. They, the cells of the bitmaps and the
    score are of type \<^typ>\<open>real\<close>: the division of a count by the largest count and the
    mean of the squared differences lie between 0 and 1, can neither overflow nor be
    \<open>nan\<close>, and are taken without rounding.
  \<^item> Sizes and factors are \<^typ>\<open>nat\<close>: the detector is only modelled for
    non-negative parameters (a negative \<open>maxlen\<close> is refused by \<open>deque\<close> itself).
  \<^item> Every \<open>raise\<close> of the source, and every exception of a library call that the
    source can reach, is a value \<open>Inl e\<close> of the result type \<open>error + 'a\<close>.
  \<^item> \<open>scipy.stats.norm.ppf\<close> is not part of the repository; it is the parameter
    \<open>ppf\<close> of the functions that reach it.
\<close>

subsection \<open>Errors\<close>

datatype error = ValueError | IndexError | ZeroDivisionError | KeyError

text \<open>A list comprehension whose body may raise: the first exception ends it.\<close>

fun map_err :: "('a \<Rightarrow> error + 'b) \<Rightarrow> 'a list \<Rightarrow> error + 'b list" where
  "map_err f [] = Inr []"
| "map_err f (x # xs) =
     (case f x of
        Inl e \<Rightarrow> Inl e
      | Inr y \<Rightarrow> (case map_err f xs of Inl e \<Rightarrow> Inl e | Inr ys \<Rightarrow> Inr (y # ys)))"

subsection \<open>Floating-point numbers\<close>

text \<open>
  A Python float, and an element of a numpy \<open>float64\<close> array, is an IEEE 754 double:
  a finite number, one of the two infinities, or \<open>nan\<close>.
\<close>

datatype fl = Num real | PInf | NInf | NaN

text \<open>
  An operation on two finite doubles is the exact operation followed by the rounding
  \<open>rnd\<close> of its result to a double, which overflows to an infinity; on infinities and
  \<open>nan\<close> the operations are those of IEEE 754 (\<open>inf - inf\<close>, \<open>0 * inf\<close>, \<open>inf / inf\<close>
  and \<open>0 / 0\<close> are \<open>nan\<close>, and \<open>nan\<close> propagates). Zero carries no sign here: the
  divisors of the source are a length and a standard deviation, never a negative zero.
\<close>

fun fneg :: "fl \<Rightarrow> fl" where
  "fneg (Num x) = Num (- x)"
| "fneg PInf = NInf"
| "fneg NInf = PInf"
| "fneg NaN = NaN"

fun fadd :: "(real \<Rightarrow> fl) \<Rightarrow> fl \<Rightarrow> fl \<Rightarrow> fl" where
  "fadd rnd (Num x) (Num y) = rnd (x + y)"
| "fadd rnd NaN b = NaN"
| "fadd rnd a NaN = NaN"
| "fadd rnd PInf NInf = NaN"
| "fadd rnd NInf PInf = NaN"
| "fadd rnd PInf b = PInf"
| "fadd rnd a PInf = PInf"
| "fadd rnd NInf b = NInf"
| "fadd rnd a NInf = NInf"

definition fsub :: "(real \<Rightarrow> fl) \<Rightarrow> fl \<Rightarrow> fl \<Rightarrow> fl" where
  "fsub rnd a b = fadd rnd a (fneg b)"

fun fmul :: "(real \<Rightarrow> fl) \<Rightarrow> fl \<Rightarrow> fl \<Rightarrow> fl" where
  "fmul rnd (Num x) (Num y) = rnd (x * y)"
| "fmul rnd NaN b = NaN"
| "fmul rnd a NaN = NaN"
| "fmul rnd (Num x) PInf = (if x = 0 then NaN else if 0 < x then PInf else NInf)"
| "fmul rnd (Num x) NInf = (if x = 0 then NaN else if 0 < x then NInf else PInf)"
| "fmul rnd PInf (Num y) = (if y = 0 then NaN else if 0 < y then PInf else NInf)"
| "fmul rnd NInf (Num y) = (if y = 0 then NaN else if 0 < y then NInf else PInf)"
| "fmul rnd PInf PInf = PInf"
| "fmul rnd PInf NInf = NInf"
| "fmul rnd NInf PInf = NInf"
| "fmul rnd NInf NInf = PInf"

fun fdiv :: "(real \<Rightarrow> fl) \<Rightarrow> fl \<Rightarrow> fl \<Rightarrow> fl" where
  "fdiv rnd (Num x) (Num y) =
     (if y = 0 then (if x = 0 then NaN else if 0 < x then PInf else NInf)
      else rnd (x / y))"
| "fdiv rnd NaN b = NaN"
| "fdiv rnd a NaN = NaN"
| "fdiv rnd (Num x) PInf = Num 0"
| "fdiv rnd (Num x) NInf = Num 0"
| "fdiv rnd PInf (Num y) = (if 0 \<le> y then PInf else NInf)"
| "fdiv rnd NInf (Num y) = (if 0 \<le> y then NInf else PInf)"
| "fdiv rnd PInf PInf = NaN"
| "fdiv rnd PInf NInf = NaN"
| "fdiv rnd NInf PInf = NaN"
| "fdiv rnd NInf NInf = NaN"

fun fsqrt :: "(real \<Rightarrow> fl) \<Rightarrow> fl \<Rightarrow> fl" where
  "fsqrt rnd (Num x) = (if x < 0 then NaN else rnd (sqrt x))"
| "fsqrt rnd PInf = PInf"
| "fsqrt rnd NInf = NaN"
| "fsqrt rnd NaN = NaN"

text \<open>The comparison \<open>a > b\<close>: false whenever an operand is \<open>nan\<close>.\<close>

fun fl_gt :: "fl \<Rightarrow> fl \<Rightarrow> bool" where
  "fl_gt (Num x) (Num y) = (y < x)"
| "fl_gt NaN b = False"
| "fl_gt a NaN = False"
| "fl_gt PInf PInf = False"
| "fl_gt PInf b = True"
| "fl_gt NInf b = False"
| "fl_gt (Num x) NInf = True"
| "fl_gt (Num x) PInf = False"

subsection \<open>The discretizer \<open>_sax\<close>\<close>

text \<open>
  \<open>np.add.reduce\<close>: the sum of the empty array is \<open>0.0\<close>; otherwise the elements are
  added one rounded addition at a time, starting from the first. (numpy adds the
  elements of an array of eight or more in several accumulators; the sum is taken
  from left to right here.)
\<close>

fun np_sum :: "(real \<Rightarrow> fl) \<Rightarrow> fl list \<Rightarrow> fl" where
  "np_sum rnd [] = Num 0"
| "np_sum rnd (x # xs) = foldl (fadd rnd) x xs"

text \<open>
  \<open>np.mean\<close>: the sum divided by the number of elements. On the empty array this is
  \<open>0.0 / 0\<close>, which is \<open>nan\<close>.
\<close>

definition np_mean :: "(real \<Rightarrow> fl) \<Rightarrow> fl list \<Rightarrow> fl" where
  "np_mean rnd xs = fdiv rnd (np_sum rnd xs) (Num (real (length xs)))"

text \<open>
  \<open>ndarray.std\<close>: the square root of the mean of the squared deviations from the
  mean.
\<close>

definition np_std :: "(real \<Rightarrow> fl) \<Rightarrow> fl list \<Rightarrow> fl" where
  "np_std rnd xs =
     (let arrmean = np_mean rnd xs;
          x = map (\<lambda>a. fsub rnd a arrmean) xs;
          x = map (\<lambda>a. fmul rnd a a) x
      in fsqrt rnd (fdiv rnd (np_sum rnd x) (Num (real (length xs)))))"

text \<open>
  Lines 46 to 49: subtract the mean, and multiply by \<open>1.0 / std\<close> unless \<open>std\<close> is
  zero. \<open>std != 0\<close> is true of \<open>nan\<close> and of an infinity.
\<close>

definition scale_data :: "(real \<Rightarrow> fl) \<Rightarrow> fl list \<Rightarrow> fl list" where
  "scale_data rnd data =
     (let m = np_mean rnd data;
          scaled_data = map (\<lambda>x. fsub rnd x m) data;
          std = np_std rnd scaled_data
      in if std \<noteq> Num 0
         then (let r = fdiv rnd (Num 1) std in map (\<lambda>x. fmul rnd x r) scaled_data)
         else scaled_data)"

text \<open>
  \<open>np.linspace(start, stop, num)\<close> with its default \<open>endpoint=True\<close>. The arguments of
  \<open>norm.ppf\<close> are taken exactly.
\<close>

definition linspace :: "real \<Rightarrow> real \<Rightarrow> nat \<Rightarrow> real list" where
  "linspace start stop num =
     (if num = 1 then [start]
      else map (\<lambda>i. start + real i * ((stop - start) / real (num - 1))) [0..<num])"

text \<open>
  Lines 51 to 54, with \<open>norm.ppf\<close> as the parameter \<open>ppf\<close>: its values at the points
  of \<open>linspace\<close>, which lie strictly between 0 and 1, are finite; the last breakpoint
  is the sentinel \<open>np.Inf\<close>.
\<close>

definition sax_breakpoints :: "(real \<Rightarrow> real) \<Rightarrow> nat \<Rightarrow> fl list" where
  "sax_breakpoints ppf alphbt_size =
     map (\<lambda>q. Num (ppf q))
       (linspace (1 / real alphbt_size) (1 - 1 / real alphbt_size) (alphbt_size - 1))
     @ [PInf]"

text \<open>
  \<open>np.array_split(ary, n)\<close> for \<open>n > 0\<close>: the first \<open>len mod n\<close> sections have
  \<open>len div n + 1\<close> elements, the others \<open>len div n\<close>.
\<close>

fun split_sizes :: "nat list \<Rightarrow> 'a list \<Rightarrow> 'a list list" where
  "split_sizes [] xs = []"
| "split_sizes (k # ks) xs = take k xs # split_sizes ks (drop k xs)"

definition array_split :: "'a list \<Rightarrow> nat \<Rightarrow> 'a list list" where
  "array_split ary n =
     split_sizes
       (replicate (length ary mod n) (length ary div n + 1)
        @ replicate (n - length ary mod n) (length ary div n))
       ary"

text \<open>
  \<open>np.where(breakpoints > section_mean)[0]\<close> is the list of the indices whose
  breakpoint is greater; its element \<open>[0]\<close> raises \<open>IndexError\<close> when there is none,
  as when \<open>section_mean\<close> is \<open>nan\<close> or \<open>+inf\<close>.
\<close>

definition np_where_gt :: "fl list \<Rightarrow> fl \<Rightarrow> nat list" where
  "np_where_gt breakpoints section_mean =
     filter (\<lambda>i. fl_gt (breakpoints ! i) section_mean) [0..<length breakpoints]"

definition section_location :: "fl list \<Rightarrow> fl \<Rightarrow> error + nat" where
  "section_location breakpoints section_mean =
     (case np_where_gt breakpoints section_mean of
        [] \<Rightarrow> Inl IndexError
      | i # _ \<Rightarrow> Inr i)"

definition ascii_letters :: string where
  "ascii_letters = ''abcdefghijklmnopqrstuvwxyzABCDEFGHIJKLMNOPQRSTUVWXYZ''"

text \<open>\<open>string.ascii_letters[ind]\<close> for \<open>ind \<ge> 0\<close>.\<close>

definition letter_at :: "nat \<Rightarrow> error + char" where
  "letter_at ind =
     (if ind < length ascii_letters then Inr (ascii_letters ! ind) else Inl IndexError)"

text \<open>
  \<open>_sax(data, alphbt_size, word_size)\<close>. The argument is a list, so it is
  one-dimensional and the first \<open>ValueError\<close> of the source cannot occur.
  \<open>len(data) % word_size\<close> raises for \<open>word_size = 0\<close>, and \<open>1 / alphbt_size\<close> for
  \<open>alphbt_size = 0\<close>.
\<close>

definition sax ::
  "(real \<Rightarrow> fl) \<Rightarrow> (real \<Rightarrow> real) \<Rightarrow> fl list \<Rightarrow> nat \<Rightarrow> nat \<Rightarrow> error + string" where
  "sax rnd ppf data alphbt_size word_size =
     (if word_size = 0 then Inl ZeroDivisionError
      else if length data mod word_size \<noteq> 0 then Inl ValueError
      else if alphbt_size = 0 then Inl ZeroDivisionError
      else
        (let scaled_data = scale_data rnd data;
             breakpoints = sax_breakpoints ppf alphbt_size;
             sections = array_split scaled_data word_size;
             section_means = map (np_mean rnd) sections
         in case map_err (section_location breakpoints) section_means of
              Inl e \<Rightarrow> Inl e
            | Inr section_locations \<Rightarrow> map_err letter_at section_locations))"

subsection \<open>The distance \<open>_dist\<close>\<close>

text \<open>
  A matrix is the list of its rows. \<open>np.power(mtrx_a - mtrx_b, 2).sum()\<close> on two
  matrices of the same shape (the only use of the source).
\<close>

type_synonym matrix = "real list list"

definition dist :: "matrix \<Rightarrow> matrix \<Rightarrow> real" where
  "dist mtrx_a mtrx_b =
     sum_list (map (\<lambda>(row_a, row_b). sum_list (map (\<lambda>(a, b). (a - b)\<^sup>2) (zip row_a row_b)))
                 (zip mtrx_a mtrx_b))"

subsection \<open>The combination catalog and the frequency counter\<close>

text \<open>
  \<open>itertools.permutations(iterable, r)\<close>: the tuples of \<open>r\<close> elements taken at
  pairwise different positions, in the order of the positions.
\<close>

fun permutations :: "'a list \<Rightarrow> nat \<Rightarrow> 'a list list" where
  "permutations xs 0 = [[]]"
| "permutations xs (Suc r) =
     concat (map (\<lambda>i. map ((#) (xs ! i)) (permutations (take i xs @ drop (Suc i) xs) r))
               [0..<length xs])"

definition build_combinations :: "'a list \<Rightarrow> nat \<Rightarrow> 'a list set" where
  "build_combinations alphabet combination_len =
     set (permutations alphabet combination_len @ map (\<lambda>c. [c, c]) alphabet)"

definition count_substr :: "'a list \<Rightarrow> 'a list \<Rightarrow> nat" where
  "count_substr stack needle =
     length (filter (\<lambda>i. take (length needle) (drop i stack) = needle)
               [0..<length stack + 1 - length needle])"

text \<open>
  The frequency table is a dictionary from the catalog's keys to floating-point counts.
  The inner loop \<open>for key in freqs\<close> updates every key once.
\<close>

type_synonym freqs = "(string, real) mapping"

definition count_frequencies :: "string list \<Rightarrow> string \<Rightarrow> nat \<Rightarrow> freqs" where
  "count_frequencies words alphabet subword_len =
     (let combinations = build_combinations alphabet subword_len;
          freqs = Mapping.tabulate (sorted_list_of_set combinations) (\<lambda>c. 0)
      in foldl (\<lambda>freqs word.
                  Mapping.map_values (\<lambda>key v. v + real (count_substr word key)) freqs)
           freqs words)"

subsection \<open>The bitmap builder \<open>_build_bitmap\<close>\<close>

text \<open>
  \<open>matrix_size = sqrt(len(freqs))\<close> is kept when it is a whole number: \<open>Some n\<close> with
  \<open>n * n = len\<close>, and \<open>None\<close> when the source raises.
\<close>

definition matrix_size_of :: "nat \<Rightarrow> nat option" where
  "matrix_size_of len = find (\<lambda>n. n * n = len) [0..<Suc len]"

text \<open>
  The loop over the ordered keys, with its counters \<open>i\<close> and \<open>j\<close> and the bitmap as
  state. A write outside the \<open>matrix_size\<close> by \<open>matrix_size\<close> array raises
  \<open>IndexError\<close>, a key missing from the table \<open>KeyError\<close>.
\<close>

fun bitmap_loop ::
  "nat \<Rightarrow> real \<Rightarrow> freqs \<Rightarrow> string list \<Rightarrow> nat \<Rightarrow> nat \<Rightarrow> matrix \<Rightarrow> error + matrix" where
  "bitmap_loop matrix_size norm_factor freqs [] i j bitmap = Inr bitmap"
| "bitmap_loop matrix_size norm_factor freqs (key # keys) i j bitmap =
     (let j = j mod matrix_size in
      case Mapping.lookup freqs key of
        None \<Rightarrow> Inl KeyError
      | Some v \<Rightarrow>
          if i < matrix_size \<and> j < matrix_size then
            (let bitmap = bitmap[i := (bitmap ! i)[j := (if norm_factor \<noteq> 0 then v / norm_factor else v)]];
                 j = j + 1;
                 i = (if j = matrix_size then i + 1 else i)
             in bitmap_loop matrix_size norm_factor freqs keys i j bitmap)
          else Inl IndexError)"

definition build_bitmap :: "freqs \<Rightarrow> real \<Rightarrow> error + matrix" where
  "build_bitmap freqs norm_factor =
     (case matrix_size_of (Mapping.size freqs) of
        None \<Rightarrow> Inl ValueError
      | Some matrix_size \<Rightarrow>
          bitmap_loop matrix_size norm_factor freqs (Mapping.ordered_keys freqs) 0 0
            (replicate matrix_size (replicate matrix_size 0)))"

subsection \<open>The word extractor \<open>_get_words\<close>\<close>

text \<open>
  \<open>_sax\<close> is called with its default \<open>alphbt_size=4\<close>. \<open>len(window) / feature_size\<close>
  raises for \<open>feature_size = 0\<close>.
\<close>

definition get_words ::
  "(real \<Rightarrow> fl) \<Rightarrow> (real \<Rightarrow> real) \<Rightarrow> fl list \<Rightarrow> nat \<Rightarrow> nat \<Rightarrow> error + string list" where
  "get_words rnd ppf window feature_size word_size =
     (if feature_size = 0 then Inl ZeroDivisionError
      else map_err
             (\<lambda>i. sax rnd ppf (take feature_size (drop (i * feature_size) window)) 4 word_size)
             [0..<length window div feature_size])"

subsection \<open>The window controller \<open>AssumptionFreeAA\<close>\<close>

record analysis =
  score :: real
  bitmp1 :: matrix
  bitmp2 :: matrix

text \<open>
  The object's fields. A \<open>deque(maxlen=n)\<close> is the list of its elements, oldest
  first, together with its \<open>maxlen\<close>.
\<close>

record detector =
  word_size :: nat
  window_size :: nat
  universe_size :: nat
  lead_window :: "fl list"
  lead_maxlen :: nat
  lag_window :: "fl list"
  lag_maxlen :: nat
  recursion_level :: nat
  alphabet :: string

definition AssumptionFreeAA_init :: "nat \<Rightarrow> nat \<Rightarrow> nat \<Rightarrow> nat \<Rightarrow> detector" where
  "AssumptionFreeAA_init ws window_factor lead_window_factor lag_window_factor =
     (let wsize = window_factor * ws;
          lead_window_size = lead_window_factor * wsize;
          lag_window_size = lag_window_factor * wsize
      in \<lparr> word_size = ws,
           window_size = wsize,
           universe_size = lead_window_size + lag_window_size,
           lead_window = [],
           lead_maxlen = lead_window_size,
           lag_window = [],
           lag_maxlen = lag_window_size,
           recursion_level = 2,
           alphabet = ''abcd'' \<rparr>)"

text \<open>
  \<open>deque.append\<close>: the element is added on the right, and a deque that then exceeds
  its \<open>maxlen\<close> drops its leftmost element.
\<close>

definition deque_append :: "nat \<Rightarrow> 'a list \<Rightarrow> 'a \<Rightarrow> 'a list" where
  "deque_append maxlen dq x =
     (let dq' = dq @ [x] in if length dq' > maxlen then tl dq' else dq')"

text \<open>
  \<open>dict.values()\<close> (a list in Python 2). The order of the list is the dictionary's
  order of iteration, which Python leaves open; it is the order of the sorted keys here,
  and the only use of the list, its maximum, does not depend on the order.
\<close>

definition dict_values :: "freqs \<Rightarrow> real list" where
  "dict_values fr = map (\<lambda>key. the (Mapping.lookup fr key)) (Mapping.ordered_keys fr)"

text \<open>The built-in \<open>max\<close> of a list: \<open>ValueError\<close> on the empty list.\<close>

fun py_max :: "real list \<Rightarrow> error + real" where
  "py_max [] = Inl ValueError"
| "py_max (x # xs) = Inr (foldl (\<lambda>m y. if y > m then y else m) x xs)"

definition shape0 :: "matrix \<Rightarrow> nat" where
  "shape0 m = length m"

definition shape1 :: "matrix \<Rightarrow> nat" where
  "shape1 m = (case m of [] \<Rightarrow> 0 | row # _ \<Rightarrow> length row)"

text \<open>
  Lines 201 to 212: the scoring step, on a detector whose two windows are full. The
  normalization factor is returned with the record, so that theorems can speak of it.
\<close>

definition scoring_step ::
  "(real \<Rightarrow> fl) \<Rightarrow> (real \<Rightarrow> real) \<Rightarrow> detector \<Rightarrow> error + (analysis \<times> real)" where
  "scoring_step rnd ppf d =
     (case get_words rnd ppf (lead_window d) (window_size d) (word_size d) of
        Inl e \<Rightarrow> Inl e
      | Inr lead_words \<Rightarrow>
     (case get_words rnd ppf (lag_window d) (window_size d) (word_size d) of
        Inl e \<Rightarrow> Inl e
      | Inr lag_words \<Rightarrow>
     (let lead_freqs = count_frequencies lead_words (alphabet d) (recursion_level d);
          lag_freqs = count_frequencies lag_words (alphabet d) (recursion_level d)
      in
     (case py_max (dict_values lead_freqs @ dict_values lag_freqs) of
        Inl e \<Rightarrow> Inl e
      | Inr norm_factor \<Rightarrow>
     (case build_bitmap lead_freqs norm_factor of
        Inl e \<Rightarrow> Inl e
      | Inr lead_bitmap \<Rightarrow>
     (case build_bitmap lag_freqs norm_factor of
        Inl e \<Rightarrow> Inl e
      | Inr lag_bitmap \<Rightarrow>
          Inr (\<lparr> score = dist lead_bitmap lag_bitmap
                            / real (shape0 lead_bitmap * shape1 lead_bitmap),
                   bitmp1 = lead_bitmap,
                   bitmp2 = lag_bitmap \<rparr>, norm_factor)))))))"

text \<open>
  One iteration of the loop of \<open>detect\<close>: the new state and the record appended to
  \<open>analysis_result\<close>, if any. \<open>popleft\<close> on an empty deque raises \<open>IndexError\<close>.
\<close>

definition detect_step ::
  "(real \<Rightarrow> fl) \<Rightarrow> (real \<Rightarrow> real) \<Rightarrow> detector \<Rightarrow> fl
     \<Rightarrow> error + (detector \<times> analysis option)" where
  "detect_step rnd ppf d datapoint =
     (case (if length (lead_window d) = lead_maxlen d then
              (case lead_window d of
                 [] \<Rightarrow> Inl IndexError
               | x # rest \<Rightarrow>
                   Inr (d\<lparr> lead_window := rest,
                           lag_window := deque_append (lag_maxlen d) (lag_window d) x \<rparr>))
            else Inr d) of
        Inl e \<Rightarrow> Inl e
      | Inr d1 \<Rightarrow>
          (let d2 = d1\<lparr> lead_window := deque_append (lead_maxlen d1) (lead_window d1) datapoint \<rparr>
           in if length (lead_window d2) = lead_maxlen d2
                 \<and> length (lag_window d2) = lag_maxlen d2
              then (case scoring_step rnd ppf d2 of
                      Inl e \<Rightarrow> Inl e
                    | Inr (result, norm_factor) \<Rightarrow> Inr (d2, Some result))
              else Inr (d2, None)))"

fun detect_loop ::
  "(real \<Rightarrow> fl) \<Rightarrow> (real \<Rightarrow> real) \<Rightarrow> detector \<Rightarrow> fl list \<Rightarrow> analysis list
     \<Rightarrow> error + (analysis list \<times> detector)" where
  "detect_loop rnd ppf d [] analysis_result = Inr (analysis_result, d)"
| "detect_loop rnd ppf d (datapoint # datapoints) analysis_result =
     (case detect_step rnd ppf d datapoint of
        Inl e \<Rightarrow> Inl e
      | Inr (d', None) \<Rightarrow> detect_loop rnd ppf d' datapoints analysis_result
      | Inr (d', Some result) \<Rightarrow> detect_loop rnd ppf d' datapoints (analysis_result @ [result]))"

text \<open>\<open>detect\<close> returns \<open>analysis_result\<close>; the detector it leaves behind comes with it.\<close>

definition detect ::
  "(real \<Rightarrow> fl) \<Rightarrow> (real \<Rightarrow> real) \<Rightarrow> detector \<Rightarrow> fl list
     \<Rightarrow> error + (analysis list \<times> detector)" where
  "detect rnd ppf d datapoints = detect_loop rnd ppf d datapoints []"

subsection \<open>Reference definitions for the statements\<close>

text \<open>
  The cell the specification puts at a key: the count divided by the normalization
  factor if the factor is nonzero, the raw count otherwise.
\<close>

definition spec_cell :: "freqs \<Rightarrow> real \<Rightarrow> string \<Rightarrow> real" where
  "spec_cell fr nf k =
     (if nf \<noteq> 0 then the (Mapping.lookup fr k) / nf else the (Mapping.lookup fr k))"

text \<open>The values occurring in a frequency table, as a set.\<close>

definition table_values :: "freqs \<Rightarrow> real set" where
  "table_values fr = (\<lambda>k. the (Mapping.lookup fr k)) ` Mapping.keys fr"

text \<open>
  The score in the specification's words, for two \<open>n\<close> by \<open>n\<close> bitmaps: the sum over
  all cells of the squared difference, divided by the number of cells.
\<close>

definition spec_score :: "nat \<Rightarrow> matrix \<Rightarrow> matrix \<Rightarrow> real" where
  "spec_score n A B = (\<Sum>i<n. \<Sum>j<n. (A ! i ! j - B ! i ! j)\<^sup>2) / real (n * n)"

text \<open>
  A concrete \<open>ppf\<close> for the closed examples: the values of \<open>norm.ppf\<close> at the three
  quartiles, the only arguments \<open>_sax\<close> passes when \<open>alphbt_size = 4\<close>, to the sixteen
  digits scipy prints. The general theorems hold for every \<open>ppf\<close>.
\<close>

definition ppf_quartiles :: "real \<Rightarrow> real" where
  "ppf_quartiles q =
     (if q = 1 / 4 then - (6744897501960817 / 10 ^ 16)
      else if q = 3 / 4 then 6744897501960817 / 10 ^ 16
      else 0)"

text \<open>A finite floating-point number of magnitude at most \<open>c\<close>.\<close>

definition fl_within :: "real \<Rightarrow> fl \<Rightarrow> bool" where
  "fl_within c a = (case a of Num x \<Rightarrow> \<bar>x\<bar> \<le> c | _ \<Rightarrow> False)"

text \<open>
  What the theorems use of the rounding to a double. It never yields \<open>nan\<close>; it is
  monotone; it leaves the number \<open>m * 2\<^sup>a / 2\<^sup>b\<close> unchanged when \<open>\<bar>m\<bar> \<le> 2\<^sup>5\<^sup>3\<close>,
  \<open>a \<le> 970\<close> and \<open>b \<le> 1074\<close>, which is then a double; and a finite result other than
  zero has at least the magnitude \<open>2\<^sup>-\<^sup>1\<^sup>0\<^sup>7\<^sup>4\<close> of the smallest positive double. Each
  rounding mode of IEEE 754 has these four properties.
\<close>

definition rounding :: "(real \<Rightarrow> fl) \<Rightarrow> bool" where
  "rounding rnd \<longleftrightarrow>
     (\<forall>x. rnd x \<noteq> NaN)
   \<and> (\<forall>x y. x \<le> y \<longrightarrow> \<not> fl_gt (rnd x) (rnd y))
   \<and> (\<forall>m a b. \<bar>m\<bar> \<le> 2 ^ 53 \<and> a \<le> 970 \<and> b \<le> 1074 \<longrightarrow>
        rnd (real_of_int m * 2 ^ a / 2 ^ b) = Num (real_of_int m * 2 ^ a / 2 ^ b))
   \<and> (\<forall>x y. rnd x = Num y \<longrightarrow> y = 0 \<or> 1 / 2 ^ 1074 \<le> \<bar>y\<bar>)"

text \<open>
  A concrete rounding for the closed examples: a number of the range of the doubles
  is left as it is, a number beyond the largest double overflows, a number below the
  smallest positive double goes to zero. In the closed examples that name a value
  every intermediate result is a double, on which all roundings agree.
\<close>

definition max_double :: real where
  "max_double = (2 ^ 53 - 1) * 2 ^ 971"

definition rnd_exact :: "real \<Rightarrow> fl" where
  "rnd_exact x =
     (if max_double < x then PInf
      else if x < - max_double then NInf
      else if \<bar>x\<bar> < 1 / 2 ^ 1074 then Num 0
      else Num x)"

text \<open>
  A coarse stand-in for \<open>norm.ppf\<close> at the 52 arguments \<open>_sax\<close> passes when
  \<open>alphbt_size = 53\<close>: it has the sign of \<open>norm.ppf\<close>, and its magnitude \<open>21/10\<close> bounds
  that of \<open>norm.ppf\<close> there (\<open>norm.ppf (52/53)\<close> is about \<open>2.08\<close>).
\<close>

definition ppf_coarse :: "real \<Rightarrow> real" where
  "ppf_coarse q = (if q < 1 / 2 then - (21 / 10) else if q = 1 / 2 then 0 else 21 / 10)"

section \<open>Properties\<close>

subsection \<open>The combination catalog\<close>

lemma permutations_one: "permutations ys (Suc 0) = map (\<lambda>j. [ys ! j]) [0..<length ys]"
  by (simp add: concat_map_singleton)

lemma set_permutations_one: "set (permutations ys (Suc 0)) = (\<lambda>y. [y]) ` set ys"
proof -
  have "map (\<lambda>j. [ys ! j]) [0..<length ys] = map (\<lambda>y. [y]) (map ((!) ys) [0..<length ys])"
    by simp
  also have "\<dots> = map (\<lambda>y. [y]) ys"
    by (simp only: map_nth)
  finally show ?thesis
    by (simp only: permutations_one set_map)
qed

lemma set_remove_nth:
  assumes "i < length xs"
  shows "set (take i xs @ drop (Suc i) xs) = {xs ! j |j. j < length xs \<and> j \<noteq> i}"
proof (rule set_eqI, rule iffI)
  fix y assume "y \<in> set (take i xs @ drop (Suc i) xs)"
  then consider "y \<in> set (take i xs)" | "y \<in> set (drop (Suc i) xs)" by auto
  then show "y \<in> {xs ! j |j. j < length xs \<and> j \<noteq> i}"
  proof cases
    case 1
    then obtain j where "j < length (take i xs)" "take i xs ! j = y"
      by (auto simp: in_set_conv_nth)
    then have "j < i" "xs ! j = y" using assms by auto
    then show ?thesis using assms by auto
  next
    case 2
    then obtain k where "k < length (drop (Suc i) xs)" "drop (Suc i) xs ! k = y"
      by (auto simp: in_set_conv_nth)
    then have "Suc i + k < length xs" "xs ! (Suc i + k) = y" using assms by auto
    moreover have "Suc i + k \<noteq> i" by simp
    ultimately show ?thesis by blast
  qed
next
  fix y assume "y \<in> {xs ! j |j. j < length xs \<and> j \<noteq> i}"
  then obtain j where j: "j < length xs" "j \<noteq> i" "y = xs ! j" by blast
  show "y \<in> set (take i xs @ drop (Suc i) xs)"
  proof (cases "j < i")
    case True
    then have "take i xs ! j = y" "j < length (take i xs)" using j assms by auto
    then have "y \<in> set (take i xs)" by (metis nth_mem)
    then show ?thesis by simp
  next
    case False
    then have "Suc i \<le> j" using j by simp
    then have "drop (Suc i) xs ! (j - Suc i) = y" "j - Suc i < length (drop (Suc i) xs)"
      using j by auto
    then have "y \<in> set (drop (Suc i) xs)" by (metis nth_mem)
    then show ?thesis by simp
  qed
qed

lemma set_permutations_two:
  "set (permutations xs 2) = {[xs ! i, xs ! j] |i j. i < length xs \<and> j < length xs \<and> i \<noteq> j}"
proof -
  have "set (permutations xs (Suc (Suc 0)))
        = (\<Union>i\<in>{0..<length xs}. (#) (xs ! i) ` set (permutations (take i xs @ drop (Suc i) xs) (Suc 0)))"
    by (simp del: permutations.simps(2) add: permutations.simps(2)[of xs "Suc 0"])
  also have "\<dots> = (\<Union>i\<in>{0..<length xs}. (#) (xs ! i) ` (\<lambda>y. [y]) ` {xs ! j |j. j < length xs \<and> j \<noteq> i})"
  proof (rule SUP_cong[OF refl])
    fix i assume "i \<in> {0..<length xs}"
    then have "i < length xs" by simp
    then show "(#) (xs ! i) ` set (permutations (take i xs @ drop (Suc i) xs) (Suc 0))
               = (#) (xs ! i) ` (\<lambda>y. [y]) ` {xs ! j |j. j < length xs \<and> j \<noteq> i}"
      by (simp only: set_permutations_one set_remove_nth)
  qed
  also have "\<dots> = {[xs ! i, xs ! j] |i j. i < length xs \<and> j < length xs \<and> i \<noteq> j}"
  proof (rule set_eqI, rule iffI)
    fix w
    assume "w \<in> (\<Union>i\<in>{0..<length xs}.
                  (#) (xs ! i) ` (\<lambda>y. [y]) ` {xs ! j |j. j < length xs \<and> j \<noteq> i})"
    then obtain i j where "i < length xs" "j < length xs" "j \<noteq> i" "w = [xs ! i, xs ! j]"
      by auto
    then show "w \<in> {[xs ! i, xs ! j] |i j. i < length xs \<and> j < length xs \<and> i \<noteq> j}"
      by blast
  next
    fix w
    assume "w \<in> {[xs ! i, xs ! j] |i j. i < length xs \<and> j < length xs \<and> i \<noteq> j}"
    then obtain i j where ij: "i < length xs" "j < length xs" "i \<noteq> j" "w = [xs ! i, xs ! j]"
      by blast
    then have "xs ! j \<in> {xs ! k |k. k < length xs \<and> k \<noteq> i}" by blast
    then have "w \<in> (#) (xs ! i) ` (\<lambda>y. [y]) ` {xs ! k |k. k < length xs \<and> k \<noteq> i}"
      using ij(4) by blast
    then show "w \<in> (\<Union>i\<in>{0..<length xs}.
                  (#) (xs ! i) ` (\<lambda>y. [y]) ` {xs ! j |j. j < length xs \<and> j \<noteq> i})"
      using ij(1) by (intro UN_I[of i]) simp_all
  qed
  finally show ?thesis by (simp add: numeral_2_eq_2)
qed

lemma build_combinations_two:
  "build_combinations alph 2 = (\<lambda>(x, y). [x, y]) ` (set alph \<times> set alph)"
proof (rule set_eqI, rule iffI)
  fix w assume "w \<in> build_combinations alph 2"
  then show "w \<in> (\<lambda>(x, y). [x, y]) ` (set alph \<times> set alph)"
    unfolding build_combinations_def set_append set_permutations_two by auto
next
  fix w assume "w \<in> (\<lambda>(x, y). [x, y]) ` (set alph \<times> set alph)"
  then obtain x y where w: "w = [x, y]" "x \<in> set alph" "y \<in> set alph" by auto
  show "w \<in> build_combinations alph 2"
  proof (cases "x = y")
    case True
    then show ?thesis using w unfolding build_combinations_def by auto
  next
    case False
    from w obtain i j where "i < length alph" "j < length alph"
        "x = alph ! i" "y = alph ! j"
      by (metis in_set_conv_nth)
    moreover from this False have "i \<noteq> j" by auto
    ultimately have "w \<in> set (permutations alph 2)"
      unfolding set_permutations_two using w by blast
    then show ?thesis unfolding build_combinations_def by simp
  qed
qed

lemma card_build_combinations_two:
  "card (build_combinations alph 2) = (card (set alph))\<^sup>2"
proof -
  have "inj_on (\<lambda>(x, y). [x, y]) (set alph \<times> set alph)"
    by (auto simp: inj_on_def)
  then show ?thesis
    by (simp add: build_combinations_two card_image card_cartesian_product power2_eq_square)
qed

subsection \<open>The frequency counter\<close>

lemma finite_build_combinations: "finite (build_combinations alph n)"
  by (simp add: build_combinations_def)

lemma count_loop_lookup:
  "Mapping.lookup
     (foldl (\<lambda>fr w. Mapping.map_values (\<lambda>key v. v + real (count_substr w key)) fr) fr0 ws) k
   = map_option (\<lambda>v. v + (\<Sum>w\<leftarrow>ws. real (count_substr w k))) (Mapping.lookup fr0 k)"
proof (induction ws arbitrary: fr0)
  case Nil
  then show ?case by (simp add: option.map_ident)
next
  case (Cons w ws)
  show ?case
    by (simp add: Cons.IH lookup_map_values option.map_comp comp_def add.assoc)
qed

lemma count_loop_keys:
  "Mapping.keys
     (foldl (\<lambda>fr w. Mapping.map_values (\<lambda>key v. v + real (count_substr w key)) fr) fr0 ws)
   = Mapping.keys fr0"
  by (induction ws arbitrary: fr0) simp_all

lemma lookup_count_frequencies:
  "Mapping.lookup (count_frequencies ws alph n) k
   = (if k \<in> build_combinations alph n
      then Some (\<Sum>w\<leftarrow>ws. real (count_substr w k)) else None)"
  by (simp add: count_frequencies_def Let_def count_loop_lookup lookup_tabulate
      finite_build_combinations)

lemma keys_count_frequencies:
  "Mapping.keys (count_frequencies ws alph n) = build_combinations alph n"
  by (simp add: count_frequencies_def Let_def count_loop_keys keys_tabulate
      finite_build_combinations)

lemma sum_list_dict_values:
  assumes "finite (Mapping.keys fr)"
  shows "sum_list (dict_values fr) = (\<Sum>k\<in>Mapping.keys fr. the (Mapping.lookup fr k))"
proof -
  have "sum_list (dict_values fr)
        = (\<Sum>k\<in>set (Mapping.ordered_keys fr). the (Mapping.lookup fr k))"
    unfolding dict_values_def
    by (rule sum_list_distinct_conv_sum_set) (rule distinct_ordered_keys)
  then show ?thesis using assms by (simp add: set_ordered_keys)
qed

lemma count_substr_sum:
  "real (count_substr stack needle)
   = (\<Sum>i = 0..<length stack + 1 - length needle.
        if take (length needle) (drop i stack) = needle then 1 else 0)"
proof -
  have "real (length (filter P [0..<m])) = (\<Sum>i = 0..<m. if P i then 1 else 0)"
    for P and m :: nat
    by (induction m) simp_all
  then show ?thesis
    unfolding count_substr_def by simp
qed

lemma sum_count_substr_word:
  assumes "set w \<subseteq> set alph"
  shows "(\<Sum>k\<in>build_combinations alph 2. real (count_substr w k)) = real (length w - 1)"
proof -
  let ?C = "build_combinations alph 2"
  have len: "length k = 2" if "k \<in> ?C" for k
    using that by (auto simp: build_combinations_two)
  have slice: "take 2 (drop i w) \<in> ?C" if "i < length w - 1" for i
  proof -
    have "i < length w" "Suc i < length w" using that by auto
    then have "take 2 (drop i w) = [w ! i, w ! Suc i]"
      by (simp add: numeral_2_eq_2 take_Suc_conv_app_nth)
    moreover have "w ! i \<in> set alph" "w ! Suc i \<in> set alph"
      using assms \<open>i < length w\<close> \<open>Suc i < length w\<close> by (auto dest: nth_mem)
    ultimately show ?thesis by (auto simp: build_combinations_two image_iff)
  qed
  have "(\<Sum>k\<in>?C. real (count_substr w k))
        = (\<Sum>k\<in>?C. \<Sum>i = 0..<length w - 1. if take 2 (drop i w) = k then 1 else 0)"
    by (rule sum.cong) (simp_all add: count_substr_sum len)
  also have "\<dots> = (\<Sum>i = 0..<length w - 1. \<Sum>k\<in>?C. if take 2 (drop i w) = k then 1 else 0)"
    by (rule sum.swap)
  also have "\<dots> = (\<Sum>i = 0..<length w - 1. 1)"
    by (rule sum.cong) (simp_all add: finite_build_combinations slice)
  finally show ?thesis by simp
qed

lemma sum_values_count_frequencies:
  assumes "\<forall>w\<in>set ws. set w \<subseteq> set alph"
  shows "sum_list (dict_values (count_frequencies ws alph 2)) = (\<Sum>w\<leftarrow>ws. real (length w - 1))"
proof -
  let ?C = "build_combinations alph 2"
  have "sum_list (dict_values (count_frequencies ws alph 2))
        = (\<Sum>k\<in>?C. \<Sum>w\<leftarrow>ws. real (count_substr w k))"
    by (simp add: sum_list_dict_values keys_count_frequencies finite_build_combinations
        lookup_count_frequencies)
  also have "\<dots> = (\<Sum>w\<leftarrow>ws. \<Sum>k\<in>?C. real (count_substr w k))"
    by (induction ws) (simp_all add: sum.distrib)
  also have "\<dots> = (\<Sum>w\<leftarrow>ws. real (length w - 1))"
    using assms by (intro arg_cong[where f = sum_list] map_cong refl sum_count_substr_word) auto
  finally show ?thesis .
qed

subsection \<open>Claims on the catalog and the counter\<close>

lemma set_permutations_two_distinct:
  assumes "distinct xs"
  shows "set (permutations xs 2) = {[x, y] |x y. x \<in> set xs \<and> y \<in> set xs \<and> x \<noteq> y}"
proof (rule set_eqI, rule iffI)
  fix w assume "w \<in> set (permutations xs 2)"
  then obtain i j where "i < length xs" "j < length xs" "i \<noteq> j" "w = [xs ! i, xs ! j]"
    unfolding set_permutations_two by blast
  moreover from this assms have "xs ! i \<noteq> xs ! j" by (simp add: nth_eq_iff_index_eq)
  ultimately show "w \<in> {[x, y] |x y. x \<in> set xs \<and> y \<in> set xs \<and> x \<noteq> y}"
    by (auto dest: nth_mem)
next
  fix w assume "w \<in> {[x, y] |x y. x \<in> set xs \<and> y \<in> set xs \<and> x \<noteq> y}"
  then obtain x y where w: "w = [x, y]" "x \<in> set xs" "y \<in> set xs" "x \<noteq> y" by blast
  then obtain i j where "i < length xs" "j < length xs" "x = xs ! i" "y = xs ! j"
    by (metis in_set_conv_nth)
  moreover from this w have "i \<noteq> j" by auto
  ultimately show "w \<in> set (permutations xs 2)"
    unfolding set_permutations_two using w by blast
qed

lemma card_arrangements:
  assumes "finite A"
  shows "card {[x, y] |x y. x \<in> A \<and> y \<in> A \<and> x \<noteq> y} = card A * (card A - 1)"
proof -
  have eq: "{[x, y] |x y. x \<in> A \<and> y \<in> A \<and> x \<noteq> y}
            = (\<lambda>(x, y). [x, y]) ` (SIGMA x:A. A - {x})"
    by (auto simp: image_iff)
  have "inj_on (\<lambda>(x, y). [x, y]) (SIGMA x:A. A - {x})"
    by (auto simp: inj_on_def)
  then have "card {[x, y] |x y. x \<in> A \<and> y \<in> A \<and> x \<noteq> y} = card (SIGMA x:A. A - {x})"
    unfolding eq by (rule card_image)
  also have "\<dots> = (\<Sum>x\<in>A. card (A - {x}))"
    using assms by (intro card_SigmaI) auto
  also have "\<dots> = (\<Sum>x\<in>A. card A - 1)"
    using assms by (intro sum.cong refl) simp
  finally show ?thesis by simp
qed

lemma card_doubles:
  "card ((\<lambda>c. [c, c]) ` A) = card A"
  by (rule card_image) (simp add: inj_on_def)

text \<open>
  Claim C8. For an alphabet of \<open>n\<close> distinct symbols, the catalog built with subword
  length 2 has exactly \<open>n\<^sup>2\<close> elements: the \<open>n * (n - 1)\<close> ordered arrangements of two
  distinct symbols, which are what \<open>permutations\<close> yields, together with the \<open>n\<close>
  doubled symbols. For the detector's alphabet \<open>abcd\<close> these are 16 keys (the witness).
\<close>

theorem catalog_size:
  assumes "distinct alph"
  shows "card (build_combinations alph 2) = (length alph)\<^sup>2
       \<and> build_combinations alph 2
           = set (permutations alph 2) \<union> (\<lambda>c. [c, c]) ` set alph
       \<and> set (permutations alph 2)
           = {[x, y] |x y. x \<in> set alph \<and> y \<in> set alph \<and> x \<noteq> y}
       \<and> card (set (permutations alph 2)) = length alph * (length alph - 1)
       \<and> card ((\<lambda>c. [c, c]) ` set alph) = length alph"
proof -
  have n: "card (set alph) = length alph"
    using assms by (rule distinct_card)
  have "card (build_combinations alph 2) = (length alph)\<^sup>2"
    by (simp add: card_build_combinations_two n)
  moreover have "build_combinations alph 2
      = set (permutations alph 2) \<union> (\<lambda>c. [c, c]) ` set alph"
    by (simp add: build_combinations_def)
  moreover have "set (permutations alph 2)
      = {[x, y] |x y. x \<in> set alph \<and> y \<in> set alph \<and> x \<noteq> y}"
    using assms by (rule set_permutations_two_distinct)
  moreover have "card (set (permutations alph 2)) = length alph * (length alph - 1)"
    using assms by (simp only: set_permutations_two_distinct card_arrangements[OF finite_set] n)
  moreover have "card ((\<lambda>c. [c, c]) ` set alph) = length alph"
    by (simp only: card_doubles n)
  ultimately show ?thesis by blast
qed

theorem catalog_size_witness:
  "distinct ''abcd'' \<and> card (build_combinations ''abcd'' 2) = 16"
proof -
  have d: "distinct ''abcd''" by simp
  have "card (build_combinations ''abcd'' 2) = (length ''abcd'')\<^sup>2"
    using catalog_size [OF d] by (rule conjunct1)
  moreover have "(length ''abcd'')\<^sup>2 = 16" by (simp add: power2_eq_square)
  ultimately show ?thesis using d by (simp only: simp_thms)
qed

text \<open>
  Claim C10. For subword length 2 the catalog is the set of all strings of length 2
  over the alphabet; so, for every list of words over the alphabet (a Word is a string
  of symbols drawn from the alphabet), the values of the frequency table sum to the
  number of sliding positions of length 2, the sum over the words of
  \<open>max (length word - 1) 0\<close>.
\<close>

theorem frequency_total:
  assumes "list_all (\<lambda>w. set w \<subseteq> set alph) ws"
  shows "build_combinations alph 2 = {[x, y] |x y. x \<in> set alph \<and> y \<in> set alph}
       \<and> sum_list (dict_values (count_frequencies ws alph 2))
           = (\<Sum>w\<leftarrow>ws. max (real (length w) - 1) 0)"
proof -
  have "build_combinations alph 2 = {[x, y] |x y. x \<in> set alph \<and> y \<in> set alph}"
    by (auto simp: build_combinations_two image_iff)
  moreover have "real (length w - 1) = max (real (length w) - 1) 0" for w :: string
    by (cases w) simp_all
  then have "(\<Sum>w\<leftarrow>ws. real (length w - 1)) = (\<Sum>w\<leftarrow>ws. max (real (length w) - 1) 0)"
    by simp
  moreover have "\<forall>w\<in>set ws. set w \<subseteq> set alph"
    using assms by (simp add: list_all_iff)
  ultimately show ?thesis
    by (simp only: sum_values_count_frequencies)
qed

theorem frequency_total_witness:
  "list_all (\<lambda>w. set w \<subseteq> set ''ab'') [''aaaa'', ''abab'', ''b'', '''']
   \<and> sum_list (dict_values (count_frequencies [''aaaa'', ''abab'', ''b'', ''''] ''ab'' 2)) = 6"
proof -
  have h: "list_all (\<lambda>w. set w \<subseteq> set ''ab'') [''aaaa'', ''abab'', ''b'', '''']" by simp
  have "sum_list (dict_values (count_frequencies [''aaaa'', ''abab'', ''b'', ''''] ''ab'' 2))
        = (\<Sum>w\<leftarrow>[''aaaa'', ''abab'', ''b'', '''']. max (real (length w) - 1) 0)"
    using frequency_total [OF h] by (rule conjunct2)
  then show ?thesis using h by simp
qed

subsection \<open>The bitmap builder\<close>

text \<open>
  The loop invariant: after \<open>p\<close> keys the counters are \<open>i = p div n\<close> and
  \<open>j mod n = p mod n\<close>, so the next key is written at row \<open>p div n\<close>, column \<open>p mod n\<close>,
  inside the matrix as long as \<open>p < n * n\<close>.
\<close>

lemma index_split:
  fixes n :: nat
  assumes "b < n"
  shows "a * n + b = p \<longleftrightarrow> a = p div n \<and> b = p mod n"
  using assms by (auto simp: div_mult_mod_eq mult.commute)

lemma bitmap_loop_correct:
  assumes "0 < n" "set ks \<subseteq> Mapping.keys fr" "p + length ks \<le> n * n"
    and "length bm = n" "\<forall>r\<in>set bm. length r = n"
    and "i = p div n" "j mod n = p mod n"
  shows "\<exists>bm'. bitmap_loop n nf fr ks i j bm = Inr bm'
           \<and> length bm' = n \<and> (\<forall>r\<in>set bm'. length r = n)
           \<and> (\<forall>a<n. \<forall>b<n. bm' ! a ! b =
                 (if p \<le> a * n + b \<and> a * n + b < p + length ks
                  then spec_cell fr nf (ks ! (a * n + b - p)) else bm ! a ! b))"
  using assms
proof (induction ks arbitrary: p i j bm)
  case Nil
  then show ?case by simp
next
  case (Cons k ks)
  from Cons.prems(2) obtain v where v: "Mapping.lookup fr k = Some v"
    by (auto simp: keys_dom_lookup)
  have p: "p < n * n" using Cons.prems(3) by simp
  then have i: "i < n" using Cons.prems(6) by (simp add: less_mult_imp_div_less)
  have jm: "j mod n < n" using Cons.prems(1) by simp
  define c where "c = (if nf \<noteq> 0 then v / nf else v)"
  define bm1 where "bm1 = bm[i := (bm ! i)[j mod n := c]]"
  define j1 where "j1 = j mod n + 1"
  define i1 where "i1 = (if j1 = n then i + 1 else i)"
  have step: "bitmap_loop n nf fr (k # ks) i j bm = bitmap_loop n nf fr ks i1 j1 bm1"
    using v i jm by (simp add: Let_def c_def bm1_def j1_def i1_def)
  have len1: "length bm1 = n" using Cons.prems(4) by (simp add: bm1_def)
  have rows1: "\<forall>r\<in>set bm1. length r = n"
  proof
    fix r assume "r \<in> set bm1"
    then have "r \<in> insert ((bm ! i)[j mod n := c]) (set bm)"
      unfolding bm1_def using set_update_subset_insert by fastforce
    moreover have "length (bm ! i) = n" using Cons.prems(4,5) i by simp
    ultimately show "length r = n" using Cons.prems(5) by auto
  qed
  have i1: "i1 = Suc p div n"
    using Cons.prems(6,7) by (simp add: i1_def j1_def div_Suc mod_Suc)
  have j1: "j1 mod n = Suc p mod n"
    using Cons.prems(7) by (simp add: j1_def mod_Suc)
  have "\<exists>bm'. bitmap_loop n nf fr ks i1 j1 bm1 = Inr bm'
           \<and> length bm' = n \<and> (\<forall>r\<in>set bm'. length r = n)
           \<and> (\<forall>a<n. \<forall>b<n. bm' ! a ! b =
                 (if Suc p \<le> a * n + b \<and> a * n + b < Suc p + length ks
                  then spec_cell fr nf (ks ! (a * n + b - Suc p)) else bm1 ! a ! b))"
    using Cons.prems(1,2,3) len1 rows1 i1 j1 by (intro Cons.IH) simp_all
  then obtain bm' where bm': "bitmap_loop n nf fr ks i1 j1 bm1 = Inr bm'"
      "length bm' = n" "\<forall>r\<in>set bm'. length r = n"
      "\<forall>a<n. \<forall>b<n. bm' ! a ! b =
                 (if Suc p \<le> a * n + b \<and> a * n + b < Suc p + length ks
                  then spec_cell fr nf (ks ! (a * n + b - Suc p)) else bm1 ! a ! b)"
    by blast
  have cells: "bm' ! a ! b =
      (if p \<le> a * n + b \<and> a * n + b < p + length (k # ks)
       then spec_cell fr nf ((k # ks) ! (a * n + b - p)) else bm ! a ! b)"
    if ab: "a < n" "b < n" for a b
  proof -
    have old: "bm1 ! a ! b = (if a * n + b = p then c else bm ! a ! b)"
    proof (cases "a = i")
      case True
      have "length (bm ! i) = n" using Cons.prems(4,5) i by simp
      then show ?thesis
        using True ab Cons.prems(4,6,7) index_split[OF ab(2), of a p]
        by (auto simp: bm1_def)
    next
      case False
      then show ?thesis
        using ab Cons.prems(4,6) index_split[OF ab(2), of a p] by (auto simp: bm1_def)
    qed
    have ck: "spec_cell fr nf k = c" by (simp add: spec_cell_def c_def v)
    consider "a * n + b < p" | "a * n + b = p" | "p < a * n + b"
      by linarith
    then show ?thesis
    proof cases
      case 1
      then show ?thesis using bm'(4) ab old by simp
    next
      case 2
      then show ?thesis using bm'(4) ab old ck by simp
    next
      case 3
      then have "(k # ks) ! (a * n + b - p) = ks ! (a * n + b - Suc p)"
        by (simp add: nth_Cons')
      then show ?thesis using bm'(4) ab old 3 by auto
    qed
  qed
  show ?case
    unfolding step using bm'(1,2,3) cells by blast
qed

lemma matrix_size_of_square: "matrix_size_of (n * n) = Some n"
proof -
  let ?xs = "[0..<Suc (n * n)]"
  have "n \<le> n * n" by (cases n) simp_all
  then have lt: "n < Suc (n * n)" by linarith
  have nth: "?xs ! k = k" if "k < Suc (n * n)" for k
    using nth_upt[of 0 k "Suc (n * n)"] that by (simp del: upt_Suc)
  have "\<exists>i<length ?xs. ?xs ! i * (?xs ! i) = n * n \<and> n = ?xs ! i
          \<and> (\<forall>j<i. ?xs ! j * (?xs ! j) \<noteq> n * n)"
  proof (intro exI[of _ n] conjI allI impI)
    show "n < length ?xs" using lt by (simp del: upt_Suc)
    show "?xs ! n * (?xs ! n) = n * n" by (simp only: nth[OF lt])
    show "n = ?xs ! n" by (simp only: nth[OF lt])
    fix j assume j: "j < n"
    then have "j < Suc (n * n)" using lt by linarith
    then have "?xs ! j = j" by (rule nth)
    moreover have "j * j < n * n" using j by (simp add: mult_strict_mono)
    ultimately show "?xs ! j * (?xs ! j) \<noteq> n * n" by simp
  qed
  then show ?thesis
    unfolding matrix_size_of_def find_Some_iff by blast
qed

lemma matrix_size_of_Some: "matrix_size_of len = Some n \<Longrightarrow> n * n = len"
  unfolding matrix_size_of_def find_Some_iff by auto

lemma matrix_size_of_None: "matrix_size_of len = None \<longleftrightarrow> (\<forall>n. n * n \<noteq> len)"
proof
  assume "matrix_size_of len = None"
  then show "\<forall>n. n * n \<noteq> len" using matrix_size_of_square by fastforce
next
  assume "\<forall>n. n * n \<noteq> len"
  then show "matrix_size_of len = None"
    using matrix_size_of_Some by (cases "matrix_size_of len") auto
qed

text \<open>
  The test of the source, \<open>matrix_size != int(matrix_size)\<close> on the square root of the
  number of keys, fails exactly when \<open>matrix_size_of\<close> finds no whole root.
\<close>

lemma matrix_size_of_float_test:
  "matrix_size_of len = None \<longleftrightarrow> sqrt (real len) \<noteq> real_of_int \<lfloor>sqrt (real len)\<rfloor>"
proof
  assume none: "matrix_size_of len = None"
  show "sqrt (real len) \<noteq> real_of_int \<lfloor>sqrt (real len)\<rfloor>"
  proof
    assume eq: "sqrt (real len) = real_of_int \<lfloor>sqrt (real len)\<rfloor>"
    define k where "k = \<lfloor>sqrt (real len)\<rfloor>"
    have k0: "0 \<le> k" unfolding k_def by simp
    have sq: "sqrt (real len) = real_of_int k" unfolding k_def by (rule eq)
    have "real len = (sqrt (real len))\<^sup>2" by simp
    also have "\<dots> = (real_of_int k)\<^sup>2" by (simp only: sq)
    also have "\<dots> = real_of_int (k * k)" by (simp add: power2_eq_square)
    finally have "real_of_int (int len) = real_of_int (k * k)" by simp
    then have "int len = k * k" by (simp only: of_int_eq_iff)
    then have "len = nat k * nat k"
      using k0 by (metis nat_int nat_mult_distrib)
    then show False using none matrix_size_of_None by metis
  qed
next
  assume ne: "sqrt (real len) \<noteq> real_of_int \<lfloor>sqrt (real len)\<rfloor>"
  show "matrix_size_of len = None"
  proof (rule ccontr)
    assume "matrix_size_of len \<noteq> None"
    then obtain n where "matrix_size_of len = Some n" by auto
    then have "len = n * n" using matrix_size_of_Some by simp
    then have "sqrt (real len) = real n" by (simp add: real_sqrt_mult)
    then show False using ne by simp
  qed
qed

lemma ordered_keys_of_size:
  assumes "Mapping.size fr = m"
  shows "length (Mapping.ordered_keys fr) = m"
    and "0 < m \<Longrightarrow> set (Mapping.ordered_keys fr) = Mapping.keys fr"
proof -
  show "length (Mapping.ordered_keys fr) = m"
    using assms by (simp add: Mapping.size_def ordered_keys_def split: if_splits)
  assume "0 < m"
  then have "finite (Mapping.keys fr)"
    using assms by (simp add: Mapping.size_def split: if_splits)
  then show "set (Mapping.ordered_keys fr) = Mapping.keys fr"
    by (simp add: ordered_keys_def)
qed

lemma build_bitmap_square:
  assumes "Mapping.size fr = n * n"
  shows "\<exists>bm. build_bitmap fr nf = Inr bm
           \<and> length bm = n \<and> (\<forall>r\<in>set bm. length r = n)
           \<and> (\<forall>a<n. \<forall>b<n. bm ! a ! b = spec_cell fr nf (Mapping.ordered_keys fr ! (a * n + b)))"
proof (cases "n = 0")
  case True
  then have "Mapping.ordered_keys fr = []"
    using ordered_keys_of_size(1)[OF assms] by simp
  then show ?thesis
    using True assms matrix_size_of_square[of 0] by (simp add: build_bitmap_def)
next
  case False
  then have n: "0 < n" by simp
  let ?ks = "Mapping.ordered_keys fr"
  let ?bm0 = "replicate n (replicate n (0::real))"
  have len: "length ?ks = n * n" by (rule ordered_keys_of_size(1)[OF assms])
  have keys: "set ?ks \<subseteq> Mapping.keys fr"
    using ordered_keys_of_size(2)[OF assms] n by simp
  have "\<exists>bm'. bitmap_loop n nf fr ?ks 0 0 ?bm0 = Inr bm'
           \<and> length bm' = n \<and> (\<forall>r\<in>set bm'. length r = n)
           \<and> (\<forall>a<n. \<forall>b<n. bm' ! a ! b =
                 (if 0 \<le> a * n + b \<and> a * n + b < 0 + length ?ks
                  then spec_cell fr nf (?ks ! (a * n + b - 0)) else ?bm0 ! a ! b))"
    using n keys len by (intro bitmap_loop_correct) simp_all
  then obtain bm' where bm': "bitmap_loop n nf fr ?ks 0 0 ?bm0 = Inr bm'"
      "length bm' = n" "\<forall>r\<in>set bm'. length r = n"
      "\<forall>a<n. \<forall>b<n. bm' ! a ! b =
                 (if 0 \<le> a * n + b \<and> a * n + b < 0 + length ?ks
                  then spec_cell fr nf (?ks ! (a * n + b - 0)) else ?bm0 ! a ! b)"
    by blast
  have "bm' ! a ! b = spec_cell fr nf (?ks ! (a * n + b))" if "a < n" "b < n" for a b
  proof -
    have "a * n + b < n * n"
    proof -
      have "a * n + b < a * n + n" using that by simp
      also have "\<dots> = Suc a * n" by simp
      also have "\<dots> \<le> n * n" using that by (simp only: mult_le_mono1 Suc_leI)
      finally show ?thesis .
    qed
    then show ?thesis using bm'(4) that len by simp
  qed
  moreover have "build_bitmap fr nf = bitmap_loop n nf fr ?ks 0 0 ?bm0"
    using assms matrix_size_of_square[of n] by (simp add: build_bitmap_def)
  ultimately show ?thesis using bm'(1,2,3) by auto
qed

lemma build_bitmap_not_square:
  assumes "\<forall>n. n * n \<noteq> Mapping.size fr"
  shows "build_bitmap fr nf = Inl ValueError"
  using assms by (simp add: build_bitmap_def matrix_size_of_None[THEN iffD2])

subsection \<open>The normalization factor\<close>

lemma foldl_max: "foldl (\<lambda>m y. if y > m then y else m) x xs = Max (insert (x::real) (set xs))"
proof (induction xs arbitrary: x)
  case Nil
  then show ?case by simp
next
  case (Cons y ys)
  have "(if y > x then y else x) = max x y" by (simp add: max_def)
  then have "foldl (\<lambda>m y. if y > m then y else m) x (y # ys) = Max (insert (max x y) (set ys))"
    by (simp add: Cons.IH)
  also have "\<dots> = Max (insert x (insert y (set ys)))"
  proof (cases "set ys = {}")
    case True
    then show ?thesis by simp
  next
    case False
    then show ?thesis
      by (simp add: Max_insert max.assoc)
  qed
  finally show ?case by simp
qed

lemma py_max_Max: "xs \<noteq> [] \<Longrightarrow> py_max xs = Inr (Max (set xs))"
  by (cases xs) (simp_all add: foldl_max)

lemma set_dict_values:
  "finite (Mapping.keys fr) \<Longrightarrow>
   set (dict_values fr) = (\<lambda>k. the (Mapping.lookup fr k)) ` Mapping.keys fr"
  by (simp add: dict_values_def set_ordered_keys)

subsection \<open>Claims on the bitmap builder\<close>

lemma build_bitmap_fails_iff:
  "(\<exists>e. build_bitmap fr nf = Inl e) \<longleftrightarrow> (\<forall>n. n * n \<noteq> Mapping.size fr)"
proof
  assume "\<exists>e. build_bitmap fr nf = Inl e"
  then show "\<forall>n. n * n \<noteq> Mapping.size fr"
    using build_bitmap_square[of fr _ nf] by (metis Inl_Inr_False)
next
  assume "\<forall>n. n * n \<noteq> Mapping.size fr"
  then show "\<exists>e. build_bitmap fr nf = Inl e"
    using build_bitmap_not_square by blast
qed

text \<open>
  Claim C7. Bitmap construction fails exactly when the number of keys of the frequency
  table is not a perfect square, and then with \<open>ValueError\<close> (the specification's
  InvalidInput); when the number of keys is \<open>n\<^sup>2\<close> it succeeds with an \<open>n\<close> by \<open>n\<close> matrix
  whose cell in row \<open>a\<close>, column \<open>b\<close> is the cell of the key at position \<open>a * n + b\<close> of
  the lexicographically sorted keys: row-major order. The witness is a table of five
  keys and a table of four.
\<close>

theorem build_bitmap_perfect_square:
  "((\<exists>e. build_bitmap fr nf = Inl e) \<longleftrightarrow> (\<forall>n. n * n \<noteq> Mapping.size fr))
   \<and> ((\<forall>n. n * n \<noteq> Mapping.size fr) \<longrightarrow> build_bitmap fr nf = Inl ValueError)
   \<and> (\<forall>n. Mapping.size fr = n * n \<longrightarrow>
         (\<exists>bm. build_bitmap fr nf = Inr bm
            \<and> length bm = n \<and> (\<forall>r\<in>set bm. length r = n)
            \<and> (\<forall>a<n. \<forall>b<n.
                  bm ! a ! b = spec_cell fr nf (sorted_list_of_set (Mapping.keys fr) ! (a * n + b)))))"
proof (intro conjI allI impI)
  show "(\<exists>e. build_bitmap fr nf = Inl e) \<longleftrightarrow> (\<forall>n. n * n \<noteq> Mapping.size fr)"
    by (rule build_bitmap_fails_iff)
  show "build_bitmap fr nf = Inl ValueError" if "\<forall>n. n * n \<noteq> Mapping.size fr"
    using that by (rule build_bitmap_not_square)
  fix n assume sz: "Mapping.size fr = n * n"
  have "Mapping.ordered_keys fr = sorted_list_of_set (Mapping.keys fr)" if "0 < n"
    using sz that by (simp add: Mapping.size_def ordered_keys_def split: if_splits)
  then show "\<exists>bm. build_bitmap fr nf = Inr bm
            \<and> length bm = n \<and> (\<forall>r\<in>set bm. length r = n)
            \<and> (\<forall>a<n. \<forall>b<n.
                  bm ! a ! b = spec_cell fr nf (sorted_list_of_set (Mapping.keys fr) ! (a * n + b)))"
    using build_bitmap_square[OF sz, of nf] by (cases "n = 0") auto
qed

theorem build_bitmap_perfect_square_witness:
  "Mapping.size (Mapping.of_alist [(''a'', 1::real), (''b'', 1), (''c'', 1), (''d'', 1), (''e'', 1)]) = 5
   \<and> build_bitmap (Mapping.of_alist [(''a'', 1), (''b'', 1), (''c'', 1), (''d'', 1), (''e'', 1)]) 0
       = Inl ValueError
   \<and> Mapping.size (Mapping.of_alist [(''ba'', 7::real), (''ab'', 5), (''bb'', 0), (''aa'', 3)]) = 2 * 2
   \<and> (\<exists>bm. build_bitmap (Mapping.of_alist [(''ba'', 7), (''ab'', 5), (''bb'', 0), (''aa'', 3)]) 0
             = Inr bm
          \<and> length bm = 2
          \<and> bm ! 0 ! 0 = 3 \<and> bm ! 0 ! 1 = 5 \<and> bm ! 1 ! 0 = 7 \<and> bm ! 1 ! 1 = 0)"
proof -
  let ?five = "Mapping.of_alist [(''a'', 1::real), (''b'', 1), (''c'', 1), (''d'', 1), (''e'', 1)]"
  let ?four = "Mapping.of_alist [(''ba'', 7::real), (''ab'', 5), (''bb'', 0), (''aa'', 3)]"
  have s5: "Mapping.size ?five = 5" by code_simp
  have s4: "Mapping.size ?four = 2 * 2" by code_simp
  have "n * n \<noteq> 5" for n :: nat
  proof (cases "n \<le> 2")
    case True
    have "n * n \<le> 2 * 2" by (rule mult_le_mono[OF True True])
    then show ?thesis by simp
  next
    case False
    then have n3: "3 \<le> n" by simp
    have "3 * 3 \<le> n * n" by (rule mult_le_mono[OF n3 n3])
    then show ?thesis by simp
  qed
  then have ns: "\<forall>n. n * n \<noteq> Mapping.size ?five" by (simp only: s5) simp
  have fail: "build_bitmap ?five 0 = Inl ValueError"
    using build_bitmap_perfect_square[of ?five 0] ns by blast
  have keys: "sorted_list_of_set (Mapping.keys ?four) = [''aa'', ''ab'', ''ba'', ''bb'']"
    by code_simp
  have vals: "Mapping.lookup ?four ''aa'' = Some 3" "Mapping.lookup ?four ''ab'' = Some 5"
    "Mapping.lookup ?four ''ba'' = Some 7" "Mapping.lookup ?four ''bb'' = Some 0"
    by code_simp+
  from build_bitmap_perfect_square[of ?four 0] s4
  obtain bm where bm: "build_bitmap ?four 0 = Inr bm" "length bm = 2"
    "\<forall>a<2. \<forall>b<2. bm ! a ! b = spec_cell ?four 0 (sorted_list_of_set (Mapping.keys ?four) ! (a * 2 + b))"
    by blast
  have "bm ! 0 ! 0 = 3" "bm ! 0 ! 1 = 5" "bm ! 1 ! 0 = 7" "bm ! 1 ! 1 = 0"
    using bm(3) by (simp_all add: keys vals spec_cell_def)
  then show ?thesis using s5 s4 fail bm(1,2) by blast
qed

text \<open>
  Claim C3. On a table whose key count is a perfect square, a normalization factor of
  zero gives a bitmap of the raw counts, with no failure; a nonzero factor gives the
  counts divided by it. The factor is zero in particular when every value of both
  tables is zero: the maximum of a non-empty list of zeros is zero.
\<close>

theorem build_bitmap_normalization:
  assumes "Mapping.size fr = n * n"
  shows "(nf = 0 \<longrightarrow>
           (\<exists>bm. build_bitmap fr nf = Inr bm
              \<and> length bm = n \<and> (\<forall>r\<in>set bm. length r = n)
              \<and> (\<forall>a<n. \<forall>b<n.
                    bm ! a ! b = the (Mapping.lookup fr (Mapping.ordered_keys fr ! (a * n + b))))))
       \<and> (nf \<noteq> 0 \<longrightarrow>
           (\<exists>bm. build_bitmap fr nf = Inr bm
              \<and> length bm = n \<and> (\<forall>r\<in>set bm. length r = n)
              \<and> (\<forall>a<n. \<forall>b<n.
                    bm ! a ! b
                    = the (Mapping.lookup fr (Mapping.ordered_keys fr ! (a * n + b))) / nf)))
       \<and> (vs \<noteq> [] \<and> list_all (\<lambda>v. v = 0) vs \<longrightarrow> py_max vs = Inr 0)"
proof -
  have "py_max vs = Inr 0" if "vs \<noteq> []" "list_all (\<lambda>v. v = 0) vs"
  proof -
    have "set vs = {0}" using that by (cases vs) (auto simp: list_all_iff)
    then show ?thesis using that(1) by (simp add: py_max_Max)
  qed
  then show ?thesis
    using build_bitmap_square[OF assms, of nf] by (auto simp: spec_cell_def)
qed

theorem build_bitmap_normalization_witness:
  "Mapping.size (Mapping.of_alist [(''ba'', 7::real), (''ab'', 5), (''bb'', 0), (''aa'', 3)]) = 2 * 2
   \<and> (\<exists>bm. build_bitmap (Mapping.of_alist [(''ba'', 7), (''ab'', 5), (''bb'', 0), (''aa'', 3)]) 0
             = Inr bm
          \<and> bm ! 0 ! 0 = 3 \<and> bm ! 0 ! 1 = 5 \<and> bm ! 1 ! 0 = 7 \<and> bm ! 1 ! 1 = 0)
   \<and> (\<exists>bm. build_bitmap (Mapping.of_alist [(''ba'', 7), (''ab'', 5), (''bb'', 0), (''aa'', 3)]) 7
             = Inr bm
          \<and> bm ! 0 ! 0 = 3 / 7 \<and> bm ! 0 ! 1 = 5 / 7 \<and> bm ! 1 ! 0 = 1 \<and> bm ! 1 ! 1 = 0)
   \<and> py_max [0, 0, 0] = Inr 0"
proof -
  let ?four = "Mapping.of_alist [(''ba'', 7::real), (''ab'', 5), (''bb'', 0), (''aa'', 3)]"
  have s4: "Mapping.size ?four = 2 * 2" by code_simp
  have keys: "Mapping.ordered_keys ?four = [''aa'', ''ab'', ''ba'', ''bb'']"
    by code_simp
  have vals: "Mapping.lookup ?four ''aa'' = Some 3" "Mapping.lookup ?four ''ab'' = Some 5"
    "Mapping.lookup ?four ''ba'' = Some 7" "Mapping.lookup ?four ''bb'' = Some 0"
    by code_simp+
  have pm: "py_max [0, 0, 0] = Inr 0"
    using build_bitmap_normalization[OF s4, of 0 "[0, 0, 0]"] by simp
  from build_bitmap_normalization[OF s4, of 0 "[]", THEN conjunct1, THEN mp, OF refl]
  obtain bm0 where bm0: "build_bitmap ?four 0 = Inr bm0"
    "\<forall>a<2. \<forall>b<2. bm0 ! a ! b = the (Mapping.lookup ?four (Mapping.ordered_keys ?four ! (a * 2 + b)))"
    by blast
  have c0: "bm0 ! 0 ! 0 = 3" "bm0 ! 0 ! 1 = 5" "bm0 ! 1 ! 0 = 7" "bm0 ! 1 ! 1 = 0"
    using bm0(2) by (simp_all add: keys vals)
  have "(7::real) \<noteq> 0" by simp
  from build_bitmap_normalization[OF s4, of 7 "[]", THEN conjunct2, THEN conjunct1, THEN mp, OF this]
  obtain bm7 where bm7: "build_bitmap ?four 7 = Inr bm7"
    "\<forall>a<2. \<forall>b<2. bm7 ! a ! b
       = the (Mapping.lookup ?four (Mapping.ordered_keys ?four ! (a * 2 + b))) / 7"
    by blast
  have c7: "bm7 ! 0 ! 0 = 3 / 7" "bm7 ! 0 ! 1 = 5 / 7" "bm7 ! 1 ! 0 = 1" "bm7 ! 1 ! 1 = 0"
    using bm7(2)[rule_format, of 0 0] bm7(2)[rule_format, of 0 1]
      bm7(2)[rule_format, of 1 0] bm7(2)[rule_format, of 1 1]
    by (simp_all add: keys vals)
  show ?thesis using s4 bm0(1) c0 bm7(1) c7 pm by blast
qed

subsection \<open>Floating-point arithmetic within bounds\<close>

lemma rounding_not_nan: "rounding rnd \<Longrightarrow> rnd x \<noteq> NaN"
  by (simp add: rounding_def)

lemma rounding_mono: "rounding rnd \<Longrightarrow> x \<le> y \<Longrightarrow> \<not> fl_gt (rnd x) (rnd y)"
  unfolding rounding_def by blast

lemma rounding_double:
  assumes "rounding rnd" "\<bar>m\<bar> \<le> 2 ^ 53" "a \<le> 970" "b \<le> 1074"
  shows "rnd (real_of_int m * 2 ^ a / 2 ^ b) = Num (real_of_int m * 2 ^ a / 2 ^ b)"
  using assms unfolding rounding_def by blast

lemma rounding_tiny:
  assumes "rounding rnd" "rnd x = Num y"
  shows "y = 0 \<or> 1 / 2 ^ 1074 \<le> \<bar>y\<bar>"
  using assms unfolding rounding_def by blast

lemma rounding_zero: "rounding rnd \<Longrightarrow> rnd 0 = Num 0"
  using rounding_double[of rnd 0 0 0] by simp

lemma rounding_nat_pow:
  assumes "rounding rnd" "k \<le> 2 ^ 53" "j \<le> 970"
  shows "rnd (real k * 2 ^ j) = Num (real k * 2 ^ j)"
    and "rnd (- (real k * 2 ^ j)) = Num (- (real k * 2 ^ j))"
proof -
  have k: "\<bar>int k\<bar> \<le> 2 ^ 53" "\<bar>- int k\<bar> \<le> 2 ^ 53"
    using assms(2) by (simp_all add: of_nat_le_iff[of k "2 ^ 53", where ?'a = int, simplified])
  show "rnd (real k * 2 ^ j) = Num (real k * 2 ^ j)"
    using rounding_double[OF assms(1) k(1) assms(3), of 0] by simp
  show "rnd (- (real k * 2 ^ j)) = Num (- (real k * 2 ^ j))"
    using rounding_double[OF assms(1) k(2) assms(3), of 0] by simp
qed

lemma rounding_pow:
  assumes "rounding rnd" "j \<le> 1023"
  shows "rnd (2 ^ j) = Num (2 ^ j)" and "rnd (- (2 ^ j)) = Num (- (2 ^ j))"
proof -
  define i where "i = j - 970"
  define a where "a = min j 970"
  have ja: "j = i + a" "a \<le> 970" "i \<le> 53" using assms(2) by (auto simp: i_def a_def)
  have "(2::nat) ^ i \<le> 2 ^ 53" using ja(3) by (intro power_increasing) simp_all
  from rounding_nat_pow[OF assms(1) this ja(2)]
  show "rnd (2 ^ j) = Num (2 ^ j)" and "rnd (- (2 ^ j)) = Num (- (2 ^ j))"
    by (simp_all add: ja(1) power_add)
qed

lemma rounding_inverse_pow:
  assumes "rounding rnd" "b \<le> 1074"
  shows "rnd (1 / 2 ^ b) = Num (1 / 2 ^ b)"
  using rounding_double[OF assms(1) _ _ assms(2), of 1 0] by simp

text \<open>A number between two numbers the rounding leaves unchanged is rounded between them.\<close>

lemma rounding_between:
  assumes "rounding rnd" "rnd lo = Num lo" "rnd hi = Num hi" "lo \<le> x" "x \<le> hi"
  shows "\<exists>y. rnd x = Num y \<and> lo \<le> y \<and> y \<le> hi"
proof (cases "rnd x")
  case (Num y)
  have "\<not> fl_gt (rnd lo) (rnd x)" "\<not> fl_gt (rnd x) (rnd hi)"
    using rounding_mono[OF assms(1)] assms(4,5) by simp_all
  then show ?thesis using Num assms(2,3) by simp
next
  case PInf
  have "\<not> fl_gt (rnd x) (rnd hi)" using rounding_mono[OF assms(1) assms(5)] .
  then show ?thesis using PInf assms(3) by simp
next
  case NInf
  have "\<not> fl_gt (rnd lo) (rnd x)" using rounding_mono[OF assms(1) assms(4)] .
  then show ?thesis using NInf assms(2) by simp
next
  case NaN
  then show ?thesis using rounding_not_nan[OF assms(1), of x] by simp
qed

lemma fl_within_Num: "fl_within c a \<longleftrightarrow> (\<exists>x. a = Num x \<and> \<bar>x\<bar> \<le> c)"
  by (cases a) (simp_all add: fl_within_def)

lemma fl_within_mono: "fl_within c a \<Longrightarrow> c \<le> c' \<Longrightarrow> fl_within c' a"
  by (auto simp: fl_within_Num)

text \<open>
  Sums: \<open>k\<close> numbers of magnitude at most \<open>2\<^sup>j\<close> add up to a magnitude of at most
  \<open>k * 2\<^sup>j\<close>, a double for \<open>k \<le> 2\<^sup>5\<^sup>3\<close> and \<open>j \<le> 970\<close>.
\<close>

lemma foldl_fadd_within:
  assumes "rounding rnd" "j \<le> 970"
  shows "\<forall>a\<in>set xs. fl_within (2 ^ j) a \<Longrightarrow> \<bar>s\<bar> \<le> real k * 2 ^ j
         \<Longrightarrow> k + length xs \<le> 2 ^ 53
         \<Longrightarrow> fl_within (real (k + length xs) * 2 ^ j) (foldl (fadd rnd) (Num s) xs)"
proof (induction xs arbitrary: s k)
  case Nil
  then show ?case by (simp add: fl_within_def)
next
  case (Cons a xs)
  obtain x where x: "a = Num x" "\<bar>x\<bar> \<le> 2 ^ j"
    using Cons.prems(1) by (auto simp: fl_within_Num)
  let ?c = "real (Suc k) * 2 ^ j"
  have k: "Suc k \<le> 2 ^ 53" using Cons.prems(3) by simp
  have "\<bar>s + x\<bar> \<le> ?c" using Cons.prems(2) x(2) by (simp add: algebra_simps)
  then have "- ?c \<le> s + x" "s + x \<le> ?c" by linarith+
  from rounding_between[OF assms(1) rounding_nat_pow(2)[OF assms(1) k assms(2)]
      rounding_nat_pow(1)[OF assms(1) k assms(2)] this]
  obtain y where y: "rnd (s + x) = Num y" "\<bar>y\<bar> \<le> ?c" by auto
  have "fl_within (real (Suc k + length xs) * 2 ^ j) (foldl (fadd rnd) (Num y) xs)"
    using Cons.prems(1,3) by (intro Cons.IH y(2)) simp_all
  then show ?case using x(1) y(1) by simp
qed

lemma foldl_fadd_nonneg:
  assumes "rounding rnd" "j \<le> 970"
  shows "\<forall>a\<in>set xs. \<exists>x. a = Num x \<and> 0 \<le> x \<and> x \<le> 2 ^ j \<Longrightarrow> 0 \<le> s
         \<Longrightarrow> s \<le> real k * 2 ^ j \<Longrightarrow> k + length xs \<le> 2 ^ 53
         \<Longrightarrow> \<exists>t. foldl (fadd rnd) (Num s) xs = Num t \<and> 0 \<le> t
                  \<and> t \<le> real (k + length xs) * 2 ^ j"
proof (induction xs arbitrary: s k)
  case Nil
  then show ?case by simp
next
  case (Cons a xs)
  obtain x where x: "a = Num x" "0 \<le> x" "x \<le> 2 ^ j"
    using Cons.prems(1) by auto
  let ?c = "real (Suc k) * 2 ^ j"
  have k: "Suc k \<le> 2 ^ 53" using Cons.prems(4) by simp
  have "0 \<le> s + x" "s + x \<le> ?c" using Cons.prems(2,3) x(2,3) by (simp_all add: algebra_simps)
  from rounding_between[OF assms(1) rounding_zero[OF assms(1)]
      rounding_nat_pow(1)[OF assms(1) k assms(2)] this]
  obtain y where y: "rnd (s + x) = Num y" "0 \<le> y" "y \<le> ?c" by auto
  have "\<exists>t. foldl (fadd rnd) (Num y) xs = Num t \<and> 0 \<le> t
            \<and> t \<le> real (Suc k + length xs) * 2 ^ j"
    using Cons.prems(1,4) by (intro Cons.IH y(2,3)) simp_all
  then show ?case using x(1) y(1) by simp
qed

lemma np_sum_within:
  assumes "rounding rnd" "j \<le> 970" "\<forall>a\<in>set xs. fl_within (2 ^ j) a" "length xs \<le> 2 ^ 53"
  shows "fl_within (real (length xs) * 2 ^ j) (np_sum rnd xs)"
proof (cases xs)
  case Nil
  then show ?thesis by (simp add: fl_within_def)
next
  case (Cons a ys)
  obtain x where x: "a = Num x" "\<bar>x\<bar> \<le> 2 ^ j"
    using assms(3) Cons by (auto simp: fl_within_Num)
  have "fl_within (real (1 + length ys) * 2 ^ j) (foldl (fadd rnd) (Num x) ys)"
    using assms(3,4) x(2) Cons by (intro foldl_fadd_within[OF assms(1,2)]) simp_all
  then show ?thesis using Cons x(1) by simp
qed

lemma np_sum_nonneg:
  assumes "rounding rnd" "j \<le> 970"
    and "\<forall>a\<in>set xs. \<exists>x. a = Num x \<and> 0 \<le> x \<and> x \<le> 2 ^ j" "length xs \<le> 2 ^ 53"
  shows "\<exists>t. np_sum rnd xs = Num t \<and> 0 \<le> t \<and> t \<le> real (length xs) * 2 ^ j"
proof (cases xs)
  case Nil
  then show ?thesis by simp
next
  case (Cons a ys)
  obtain x where x: "a = Num x" "0 \<le> x" "x \<le> 2 ^ j"
    using assms(3) Cons by auto
  have "\<exists>t. foldl (fadd rnd) (Num x) ys = Num t \<and> 0 \<le> t
            \<and> t \<le> real (1 + length ys) * 2 ^ j"
    using assms(3,4) x(2,3) Cons by (intro foldl_fadd_nonneg[OF assms(1,2)]) simp_all
  then show ?thesis using Cons x(1) by simp
qed

lemma np_mean_within:
  assumes "rounding rnd" "j \<le> 970" "\<forall>a\<in>set xs. fl_within (2 ^ j) a" "length xs \<le> 2 ^ 53"
    and "xs \<noteq> []"
  shows "fl_within (2 ^ j) (np_mean rnd xs)"
proof -
  let ?n = "real (length xs)"
  have n: "0 < ?n" using assms(5) by simp
  obtain s where s: "np_sum rnd xs = Num s" "\<bar>s\<bar> \<le> ?n * 2 ^ j"
    using np_sum_within[OF assms(1-4)] by (auto simp: fl_within_Num)
  have "\<bar>s / ?n\<bar> \<le> 2 ^ j"
    using s(2) n by (simp add: divide_le_eq mult.commute)
  then have "- (2 ^ j) \<le> s / ?n" "s / ?n \<le> 2 ^ j" by linarith+
  moreover have j: "j \<le> 1023" using assms(2) by simp
  ultimately obtain y where "rnd (s / ?n) = Num y" "\<bar>y\<bar> \<le> 2 ^ j"
    using rounding_between[OF assms(1) rounding_pow(2)[OF assms(1) j] rounding_pow(1)[OF assms(1) j],
        of "s / ?n"]
    by auto
  then show ?thesis using s(1) n by (simp add: np_mean_def fl_within_def)
qed

lemma np_mean_nonneg:
  assumes "rounding rnd" "j \<le> 970"
    and "\<forall>a\<in>set xs. \<exists>x. a = Num x \<and> 0 \<le> x \<and> x \<le> 2 ^ j" "length xs \<le> 2 ^ 53"
    and "xs \<noteq> []"
  shows "\<exists>m. np_mean rnd xs = Num m \<and> 0 \<le> m \<and> m \<le> 2 ^ j"
proof -
  let ?n = "real (length xs)"
  have n: "0 < ?n" using assms(5) by simp
  obtain s where s: "np_sum rnd xs = Num s" "0 \<le> s" "s \<le> ?n * 2 ^ j"
    using np_sum_nonneg[OF assms(1-4)] by auto
  have "0 \<le> s / ?n" "s / ?n \<le> 2 ^ j"
    using s(2,3) n by (simp_all add: divide_le_eq mult.commute)
  moreover have j: "j \<le> 1023" using assms(2) by simp
  ultimately obtain y where "rnd (s / ?n) = Num y" "0 \<le> y" "y \<le> 2 ^ j"
    using rounding_between[OF assms(1) rounding_zero[OF assms(1)] rounding_pow(1)[OF assms(1) j],
        of "s / ?n"]
    by auto
  then show ?thesis using s(1) n by (simp add: np_mean_def)
qed

lemma fsub_within:
  assumes "rounding rnd" "j < 1023" "fl_within (2 ^ j) a" "fl_within (2 ^ j) b"
  shows "fl_within (2 ^ Suc j) (fsub rnd a b)"
proof -
  obtain x y where xy: "a = Num x" "\<bar>x\<bar> \<le> 2 ^ j" "b = Num y" "\<bar>y\<bar> \<le> 2 ^ j"
    using assms(3,4) by (auto simp: fl_within_Num)
  have j: "Suc j \<le> 1023" using assms(2) by simp
  have "- (2 ^ Suc j) \<le> x + - y" "x + - y \<le> 2 ^ Suc j" using xy(2,4) by simp_all
  from rounding_between[OF assms(1) rounding_pow(2)[OF assms(1) j] rounding_pow(1)[OF assms(1) j] this]
  obtain z where "rnd (x + - y) = Num z" "\<bar>z\<bar> \<le> 2 ^ Suc j" by auto
  then show ?thesis using xy(1,3) by (simp add: fsub_def fl_within_def)
qed

lemma fmul_within:
  assumes "rounding rnd" "i + j \<le> 1023" "fl_within (2 ^ i) a" "fl_within (2 ^ j) b"
  shows "fl_within (2 ^ (i + j)) (fmul rnd a b)"
proof -
  obtain x y where xy: "a = Num x" "\<bar>x\<bar> \<le> 2 ^ i" "b = Num y" "\<bar>y\<bar> \<le> 2 ^ j"
    using assms(3,4) by (auto simp: fl_within_Num)
  have "\<bar>x * y\<bar> \<le> 2 ^ i * 2 ^ j"
    unfolding abs_mult using xy(2,4) by (intro mult_mono) simp_all
  then have "- (2 ^ (i + j)) \<le> x * y" "x * y \<le> 2 ^ (i + j)"
    by (simp_all add: power_add abs_le_iff)
  from rounding_between[OF assms(1) rounding_pow(2)[OF assms(1,2)] rounding_pow(1)[OF assms(1,2)] this]
  obtain z where "rnd (x * y) = Num z" "\<bar>z\<bar> \<le> 2 ^ (i + j)" by auto
  then show ?thesis using xy(1,3) by (simp add: fl_within_def)
qed

lemma fmul_square:
  assumes "rounding rnd" "j + j \<le> 1023" "fl_within (2 ^ j) a"
  shows "\<exists>y. fmul rnd a a = Num y \<and> 0 \<le> y \<and> y \<le> 2 ^ (j + j)"
proof -
  obtain x where x: "a = Num x" "\<bar>x\<bar> \<le> 2 ^ j"
    using assms(3) by (auto simp: fl_within_Num)
  have "\<bar>x\<bar> * \<bar>x\<bar> \<le> 2 ^ j * 2 ^ j" using x(2) by (intro mult_mono) simp_all
  then have "0 \<le> x * x" "x * x \<le> 2 ^ (j + j)" by (simp_all add: power_add)
  from rounding_between[OF assms(1) rounding_zero[OF assms(1)] rounding_pow(1)[OF assms(1,2)] this]
  show ?thesis using x(1) by simp
qed

lemma np_mean_rnd:
  assumes "xs \<noteq> []" "np_sum rnd xs = Num t"
  shows "np_mean rnd xs = rnd (t / real (length xs))"
  using assms by (simp add: np_mean_def)

lemma sqrt_inverse_pow:
  fixes v :: real
  assumes "1 / 2 ^ (b + b) \<le> v"
  shows "1 / 2 ^ b \<le> sqrt v"
proof -
  have "sqrt (1 / 2 ^ (b + b)) \<le> sqrt v" using assms by (simp only: real_sqrt_le_iff)
  moreover have "(1::real) / 2 ^ (b + b) = (1 / 2 ^ b)\<^sup>2"
    by (simp add: power2_eq_square power_add)
  moreover have "sqrt ((1 / 2 ^ b)\<^sup>2) = (1::real) / 2 ^ b"
    by (simp only: real_sqrt_abs) simp
  ultimately show ?thesis by simp
qed

lemma sqrt_pow_le:
  fixes v :: real
  assumes "v \<le> 2 ^ (j + j)"
  shows "sqrt v \<le> 2 ^ j"
proof -
  have "sqrt v \<le> sqrt (2 ^ (j + j))" using assms by (simp only: real_sqrt_le_iff)
  moreover have "(2::real) ^ (j + j) = (2 ^ j)\<^sup>2" by (simp add: power2_eq_square power_add)
  moreover have "sqrt ((2 ^ j)\<^sup>2) = (2::real) ^ j" by (simp only: real_sqrt_abs) simp
  ultimately show ?thesis by simp
qed

lemma inverse_le_pow:
  fixes s :: real
  assumes "1 / 2 ^ b \<le> s"
  shows "0 < s" and "0 \<le> 1 / s" and "1 / s \<le> 2 ^ b"
proof -
  have "(0::real) < 1 / 2 ^ b" by simp
  then show pos: "0 < s" using assms by linarith
  then show "0 \<le> 1 / s" by simp
  have "1 / s \<le> 1 / (1 / 2 ^ b)" using assms pos by (intro divide_left_mono) simp_all
  then show "1 / s \<le> 2 ^ b" by simp
qed

text \<open>
  The standard deviation of bounded numbers is finite, and it is zero or at least
  \<open>2\<^sup>-\<^sup>5\<^sup>3\<^sup>7\<close>: the mean of the squares is zero or at least the smallest positive double.
\<close>

lemma np_std_within:
  assumes "rounding rnd" "j \<le> 484" "\<forall>a\<in>set xs. fl_within (2 ^ j) a" "length xs \<le> 2 ^ 53"
    and "xs \<noteq> []"
  shows "\<exists>s. np_std rnd xs = Num s \<and> (s = 0 \<or> 1 / 2 ^ 537 \<le> s) \<and> s \<le> 2 ^ Suc j"
proof -
  let ?m = "np_mean rnd xs"
  let ?x = "map (\<lambda>a. fsub rnd a ?m) xs"
  let ?sq = "map (\<lambda>a. fmul rnd a a) ?x"
  let ?J = "Suc j + Suc j"
  have j970: "j \<le> 970" and j1023: "j < 1023" and J970: "?J \<le> 970" and J1023: "?J \<le> 1023"
    and Sj: "Suc j \<le> 1023"
    using assms(2) by simp_all
  have m: "fl_within (2 ^ j) ?m"
    by (rule np_mean_within[OF assms(1) j970 assms(3,4,5)])
  have x: "\<forall>a\<in>set ?x. fl_within (2 ^ Suc j) a"
    using fsub_within[OF assms(1) j1023 _ m] assms(3) by auto
  have sq: "\<forall>a\<in>set ?sq. \<exists>y. a = Num y \<and> 0 \<le> y \<and> y \<le> 2 ^ ?J"
  proof
    fix a assume "a \<in> set ?sq"
    then obtain b where b: "b \<in> set ?x" "a = fmul rnd b b" by auto
    from fmul_square[OF assms(1) J1023, of b] b x
    show "\<exists>y. a = Num y \<and> 0 \<le> y \<and> y \<le> 2 ^ ?J" by auto
  qed
  have len: "length ?sq \<le> 2 ^ 53" "?sq \<noteq> []" "length ?sq = length xs"
    using assms(4,5) by simp_all
  obtain t where t: "np_sum rnd ?sq = Num t"
    using np_sum_nonneg[OF assms(1) J970 sq len(1)] by auto
  obtain v where v: "np_mean rnd ?sq = Num v" "0 \<le> v" "v \<le> 2 ^ ?J"
    using np_mean_nonneg[OF assms(1) J970 sq len(1,2)] by auto
  have "rnd (t / real (length ?sq)) = Num v"
    using np_mean_rnd[OF len(2) t] v(1) by simp
  from rounding_tiny[OF assms(1) this] have tiny: "v = 0 \<or> 1 / 2 ^ 1074 \<le> v"
    using v(2) by simp
  have std: "np_std rnd xs = rnd (sqrt v)"
    using v(1,2) by (simp add: np_std_def np_mean_def Let_def)
  have hi: "sqrt v \<le> 2 ^ Suc j" using v(3) by (rule sqrt_pow_le)
  show ?thesis
  proof (cases "v = 0")
    case True
    then show ?thesis using std rounding_zero[OF assms(1)] by simp
  next
    case False
    then have "1 / 2 ^ (537 + 537) \<le> v" using tiny by simp
    then have lo: "1 / 2 ^ 537 \<le> sqrt v" by (rule sqrt_inverse_pow)
    from rounding_between[OF assms(1) rounding_inverse_pow[OF assms(1), of 537]
        rounding_pow(1)[OF assms(1) Sj] lo hi]
    obtain y where "rnd (sqrt v) = Num y" "1 / 2 ^ 537 \<le> y" "y \<le> 2 ^ Suc j"
      by auto
    then show ?thesis unfolding std by blast
  qed
qed

lemma scale_data_within:
  assumes "rounding rnd" "j \<le> 400" "\<forall>a\<in>set data. fl_within (2 ^ j) a"
    and "length data \<le> 2 ^ 53"
  shows "\<forall>a\<in>set (scale_data rnd data). fl_within (2 ^ (Suc j + 537)) a"
proof (cases "data = []")
  case True
  then show ?thesis by (simp add: scale_data_def Let_def)
next
  case False
  let ?m = "np_mean rnd data"
  let ?sc = "map (\<lambda>x. fsub rnd x ?m) data"
  have j970: "j \<le> 970" and j1023: "j < 1023" and j484: "Suc j \<le> 484"
    and jj: "Suc j + 537 \<le> 1023"
    using assms(2) by simp_all
  have m: "fl_within (2 ^ j) ?m"
    by (rule np_mean_within[OF assms(1) j970 assms(3,4) False])
  have sc: "fl_within (2 ^ Suc j) a" if a: "a \<in> set ?sc" for a
  proof -
    obtain b where b: "b \<in> set data" "a = fsub rnd b ?m" using a by auto
    have "fl_within (2 ^ j) b" using assms(3) b(1) by blast
    then show ?thesis unfolding b(2) by (rule fsub_within[OF assms(1) j1023 _ m])
  qed
  then have sc': "\<forall>a\<in>set ?sc. fl_within (2 ^ Suc j) a" by blast
  have len: "length ?sc \<le> 2 ^ 53" "?sc \<noteq> []" using assms(4) False by simp_all
  obtain s where s: "np_std rnd ?sc = Num s" "s = 0 \<or> 1 / 2 ^ 537 \<le> s"
    using np_std_within[OF assms(1) j484 sc' len] by blast
  show ?thesis
  proof (cases "s = 0")
    case True
    then have eq: "scale_data rnd data = ?sc" using s(1) by (simp add: scale_data_def Let_def)
    have "(2::real) ^ Suc j \<le> 2 ^ (Suc j + 537)" by (intro power_increasing) simp_all
    then have "fl_within (2 ^ (Suc j + 537)) a" if "a \<in> set ?sc" for a
      using sc[OF that] fl_within_mono by blast
    then show ?thesis unfolding eq by blast
  next
    case False
    then have lo: "1 / 2 ^ 537 \<le> s" using s(2) by blast
    let ?r = "fdiv rnd (Num 1) (Num s)"
    from rounding_between[OF assms(1) rounding_zero[OF assms(1)]
        rounding_pow(1)[OF assms(1), of 537] inverse_le_pow(2,3)[OF lo]]
    obtain y where y: "rnd (1 / s) = Num y" "0 \<le> y" "y \<le> 2 ^ 537" by auto
    have "?r = Num y" using False y(1) by simp
    moreover have "fl_within (2 ^ 537) (Num y)" using y(2,3) by (simp only: fl_within_Num) auto
    ultimately have r: "fl_within (2 ^ 537) ?r" by simp
    have eq: "scale_data rnd data = map (\<lambda>x. fmul rnd x ?r) ?sc"
      using s(1) False by (simp add: scale_data_def Let_def)
    have "fl_within (2 ^ (Suc j + 537)) (fmul rnd a ?r)" if "a \<in> set ?sc" for a
      by (rule fmul_within[OF assms(1) jj sc[OF that] r])
    then show ?thesis unfolding eq by auto
  qed
qed

subsection \<open>The discretizer\<close>

lemma map_err_ok:
  assumes "\<forall>x\<in>set xs. \<exists>y. f x = Inr y \<and> P y"
  shows "\<exists>ys. map_err f xs = Inr ys \<and> length ys = length xs \<and> (\<forall>y\<in>set ys. P y)"
  using assms
proof (induction xs)
  case Nil
  then show ?case by simp
next
  case (Cons x xs)
  then obtain y ys where "f x = Inr y" "P y" "map_err f xs = Inr ys"
    "length ys = length xs" "\<forall>y\<in>set ys. P y"
    by auto
  then show ?case by simp
qed

lemma map_err_map:
  assumes "\<forall>x\<in>set xs. f x = Inr (g x)"
  shows "map_err f xs = Inr (map g xs)"
  using assms by (induction xs) simp_all

lemma map_err_fails:
  assumes "\<exists>x\<in>set xs. f x = Inl e" "\<forall>x\<in>set xs. f x = Inl e \<or> (\<exists>y. f x = Inr y)"
  shows "map_err f xs = Inl e"
  using assms
proof (induction xs)
  case Nil
  then show ?case by simp
next
  case (Cons x xs)
  show ?case
  proof (cases "f x")
    case (Inl e')
    then show ?thesis using Cons.prems(2) by auto
  next
    case (Inr y)
    then have "\<exists>x\<in>set xs. f x = Inl e" using Cons.prems(1) by auto
    then have "map_err f xs = Inl e" using Cons.IH Cons.prems(2) by simp
    then show ?thesis using Inr by simp
  qed
qed

lemma map_err_Inr:
  assumes "map_err f xs = Inr ys"
  shows "\<forall>x\<in>set xs. \<exists>y. f x = Inr y"
  using assms
  by (induction xs arbitrary: ys) (auto split: sum.splits)

lemma length_scale_data: "length (scale_data rnd data) = length data"
  by (simp add: scale_data_def Let_def)

lemma split_sizes_replicate:
  assumes "length xs = n * k"
  shows "length (split_sizes (replicate n k) xs) = n
       \<and> (\<forall>s\<in>set (split_sizes (replicate n k) xs). length s = k)"
  using assms
proof (induction n arbitrary: xs)
  case 0
  then show ?case by simp
next
  case (Suc n)
  have "length (drop k xs) = n * k" using Suc.prems by simp
  from Suc.IH[OF this] show ?case using Suc.prems by simp
qed

lemma array_split_divisible:
  assumes "0 < n" "length xs = k * n"
  shows "length (array_split xs n) = n \<and> (\<forall>s\<in>set (array_split xs n). length s = k)"
proof -
  have "array_split xs n = split_sizes (replicate n k) xs"
    using assms by (simp add: array_split_def)
  moreover have "length xs = n * k" using assms by (simp add: mult.commute)
  ultimately show ?thesis using split_sizes_replicate by metis
qed

lemma set_split_sizes: "s \<in> set (split_sizes ks xs) \<Longrightarrow> set s \<subseteq> set xs"
proof (induction ks arbitrary: xs)
  case Nil
  then show ?case by simp
next
  case (Cons k ks)
  then consider "s = take k xs" | "s \<in> set (split_sizes ks (drop k xs))" by auto
  then show ?case
  proof cases
    case 1
    then show ?thesis by (simp add: set_take_subset)
  next
    case 2
    then have "set s \<subseteq> set (drop k xs)" by (rule Cons.IH)
    then show ?thesis using set_drop_subset[of k xs] by blast
  qed
qed

lemma set_array_split: "s \<in> set (array_split xs n) \<Longrightarrow> set s \<subseteq> set xs"
  unfolding array_split_def by (rule set_split_sizes)

lemma length_linspace: "length (linspace start stop num) = num"
  by (simp add: linspace_def)

lemma sax_breakpoints_shape:
  "0 < a \<Longrightarrow> length (sax_breakpoints ppf a) = a \<and> sax_breakpoints ppf a ! (a - 1) = PInf"
  by (simp add: sax_breakpoints_def length_linspace nth_append)

text \<open>
  The sentinel is greater than every finite number and than \<open>-inf\<close>, so such a mean
  has a location; no breakpoint is greater than \<open>nan\<close> or than \<open>+inf\<close>.
\<close>

lemma section_location_ok:
  assumes "0 < length bps" "bps ! (length bps - 1) = PInf" "m \<noteq> NaN" "m \<noteq> PInf"
  shows "\<exists>i. section_location bps m = Inr i \<and> i < length bps"
proof -
  let ?P = "\<lambda>i. fl_gt (bps ! i) m"
  have "fl_gt PInf m" using assms(3,4) by (cases m) simp_all
  then have "length bps - 1 \<in> set (filter ?P [0..<length bps])"
    using assms(1,2) by simp
  then obtain i rest where ir: "np_where_gt bps m = i # rest"
    unfolding np_where_gt_def by (cases "filter ?P [0..<length bps]") auto
  then have "i \<in> set (filter ?P [0..<length bps])"
    unfolding np_where_gt_def by simp
  then have "i < length bps" by simp
  then show ?thesis using ir by (simp add: section_location_def)
qed

lemma fl_gt_PInf: "\<not> fl_gt b PInf"
  by (cases b) simp_all

lemma fl_gt_NaN: "\<not> fl_gt b NaN"
  by (cases b) simp_all

lemma section_location_nan:
  assumes "m = NaN \<or> m = PInf"
  shows "section_location bps m = Inl IndexError"
  using assms by (auto simp: section_location_def np_where_gt_def fl_gt_PInf fl_gt_NaN)

lemma letter_at_ok:
  assumes "i < a" "a \<le> 52"
  shows "\<exists>c. letter_at i = Inr c \<and> c \<in> set (take a ascii_letters)"
proof -
  have len: "length ascii_letters = 52" by (simp add: ascii_letters_def)
  then have "i < length (take a ascii_letters)" using assms by simp
  then have "take a ascii_letters ! i \<in> set (take a ascii_letters)" by (rule nth_mem)
  then have "ascii_letters ! i \<in> set (take a ascii_letters)" using assms by simp
  then show ?thesis using assms len by (simp add: letter_at_def)
qed

text \<open>
  The discretizer returns a word exactly when no mean of a sub-segment is \<open>nan\<close> or
  \<open>+inf\<close>, and raises \<open>IndexError\<close> otherwise.
\<close>

lemma sax_cases:
  assumes "0 < ws" "length data = k * ws" "0 < a" "a \<le> 52"
  shows "(if \<forall>m\<in>set (map (np_mean rnd) (array_split (scale_data rnd data) ws)).
               m \<noteq> NaN \<and> m \<noteq> PInf
          then \<exists>w. sax rnd ppf data a ws = Inr w \<and> length w = ws
                     \<and> set w \<subseteq> set (take a ascii_letters)
          else sax rnd ppf data a ws = Inl IndexError)"
proof -
  let ?bps = "sax_breakpoints ppf a"
  let ?secs = "array_split (scale_data rnd data) ws"
  let ?means = "map (np_mean rnd) ?secs"
  have secs: "length ?secs = ws"
    using array_split_divisible[of ws "scale_data rnd data" k] assms(1,2)
    by (simp add: length_scale_data)
  have bps: "0 < length ?bps" "?bps ! (length ?bps - 1) = PInf" "length ?bps = a"
    using sax_breakpoints_shape[OF assms(3), of ppf] assms(3) by simp_all
  have unf: "sax rnd ppf data a ws
             = (case map_err (section_location ?bps) ?means of
                  Inl e \<Rightarrow> Inl e
                | Inr section_locations \<Rightarrow> map_err letter_at section_locations)"
    using assms(1,2,3) by (simp add: sax_def Let_def)
  show ?thesis
  proof (cases "\<forall>m\<in>set ?means. m \<noteq> NaN \<and> m \<noteq> PInf")
    case True
    have "\<forall>m\<in>set ?means. \<exists>i. section_location ?bps m = Inr i \<and> i < a"
      using section_location_ok[OF bps(1,2)] True bps(3) by auto
    from map_err_ok[OF this]
    obtain locs where locs: "map_err (section_location ?bps) ?means = Inr locs"
      "length locs = ws" "\<forall>i\<in>set locs. i < a"
      using secs by auto
    have "\<forall>i\<in>set locs. \<exists>c. letter_at i = Inr c \<and> c \<in> set (take a ascii_letters)"
      using locs(3) letter_at_ok[OF _ assms(4)] by blast
    from map_err_ok[OF this]
    obtain w where w: "map_err letter_at locs = Inr w" "length w = ws"
      "\<forall>c\<in>set w. c \<in> set (take a ascii_letters)"
      using locs(2) by auto
    have "sax rnd ppf data a ws = Inr w" using unf locs(1) w(1) by simp
    then show ?thesis using True w(2,3) by auto
  next
    case False
    then have 1: "\<exists>m\<in>set ?means. section_location ?bps m = Inl IndexError"
      using section_location_nan[of _ ?bps] by blast
    have 2: "\<forall>m\<in>set ?means. section_location ?bps m = Inl IndexError
                \<or> (\<exists>i. section_location ?bps m = Inr i)"
    proof
      fix m assume "m \<in> set ?means"
      show "section_location ?bps m = Inl IndexError \<or> (\<exists>i. section_location ?bps m = Inr i)"
      proof (cases "m = NaN \<or> m = PInf")
        case True
        then show ?thesis by (simp add: section_location_nan)
      next
        case False
        then show ?thesis using section_location_ok[OF bps(1,2), of m] by blast
      qed
    qed
    have "map_err (section_location ?bps) ?means = Inl IndexError"
      by (rule map_err_fails[OF 1 2])
    then have "sax rnd ppf data a ws = Inl IndexError" using unf by simp
    then show ?thesis using False by simp
  qed
qed

lemma sax_ok:
  assumes "rounding rnd" "0 < ws" "0 < k" "length data = k * ws" "0 < a" "a \<le> 52"
    and "\<forall>x\<in>set data. fl_within (2 ^ 400) x" "length data \<le> 2 ^ 53"
  shows "\<exists>w. sax rnd ppf data a ws = Inr w \<and> length w = ws
            \<and> set w \<subseteq> set (take a ascii_letters)"
proof -
  let ?sc = "scale_data rnd data"
  let ?secs = "array_split ?sc ws"
  have secs: "\<forall>s\<in>set ?secs. length s = k"
    using array_split_divisible[of ws ?sc k] assms(2,4) by (simp add: length_scale_data)
  have sc: "\<forall>x\<in>set ?sc. fl_within (2 ^ (Suc 400 + 537)) x"
    by (rule scale_data_within[OF assms(1) _ assms(7,8)]) simp
  have "k \<le> k * ws" using assms(2) by simp
  then have k: "k \<le> 2 ^ 53" using assms(4,8) by linarith
  have "m \<noteq> NaN \<and> m \<noteq> PInf" if m: "m \<in> set (map (np_mean rnd) ?secs)" for m
  proof -
    obtain s where s: "s \<in> set ?secs" "m = np_mean rnd s" using m by auto
    have "\<forall>x\<in>set s. fl_within (2 ^ (Suc 400 + 537)) x"
      using set_array_split[OF s(1)] sc by blast
    moreover have "length s \<le> 2 ^ 53" "s \<noteq> []" using secs s(1) k assms(3) by auto
    ultimately have "fl_within (2 ^ (Suc 400 + 537)) (np_mean rnd s)"
      by (intro np_mean_within[OF assms(1)]) simp_all
    then show ?thesis unfolding s(2) by (auto simp: fl_within_Num)
  qed
  then have "\<forall>m\<in>set (map (np_mean rnd) ?secs). m \<noteq> NaN \<and> m \<noteq> PInf" by blast
  then show ?thesis
    using sax_cases[OF assms(2,4,5,6), of rnd ppf] by (simp only: if_True)
qed

subsection \<open>The concrete rounding\<close>

lemma max_double_ge: "2 ^ 1023 \<le> max_double"
proof -
  have "(2::real) ^ 1023 = 2 ^ 52 * 2 ^ 971" by (simp only: power_add[symmetric]) simp
  also have "\<dots> \<le> (2 ^ 53 - 1) * 2 ^ 971" by (intro mult_right_mono) simp_all
  finally show ?thesis by (simp only: max_double_def)
qed

lemma double_magnitude:
  fixes m :: int
  assumes "\<bar>m\<bar> \<le> 2 ^ 53" "a \<le> 970" "b \<le> 1074"
  shows "\<bar>real_of_int m * 2 ^ a / 2 ^ b\<bar> \<le> max_double"
    and "m \<noteq> 0 \<Longrightarrow> 1 / 2 ^ 1074 \<le> \<bar>real_of_int m * 2 ^ a / 2 ^ b\<bar>"
proof -
  let ?v = "real_of_int m * 2 ^ a / 2 ^ b"
  have abs: "\<bar>?v\<bar> = \<bar>real_of_int m\<bar> * 2 ^ a / 2 ^ b" by (simp add: abs_mult)
  have m: "\<bar>real_of_int m\<bar> \<le> 2 ^ 53"
    using assms(1) by (metis of_int_abs of_int_le_iff of_int_numeral of_int_power)
  have "\<bar>real_of_int m\<bar> * 2 ^ a / 2 ^ b \<le> \<bar>real_of_int m\<bar> * 2 ^ a / 1"
    by (intro divide_left_mono) simp_all
  also have "\<dots> = \<bar>real_of_int m\<bar> * 2 ^ a" by simp
  also have "\<dots> \<le> 2 ^ 53 * 2 ^ 970"
    using m assms(2) by (intro mult_mono power_increasing) simp_all
  also have "\<dots> = 2 ^ 1023" by (simp only: power_add[symmetric]) simp
  finally have "\<bar>real_of_int m\<bar> * 2 ^ a / 2 ^ b \<le> 2 ^ 1023" .
  then have "\<bar>real_of_int m\<bar> * 2 ^ a / 2 ^ b \<le> max_double"
    using max_double_ge by (rule order_trans)
  then show "\<bar>?v\<bar> \<le> max_double" by (simp only: abs)
  assume "m \<noteq> 0"
  then have "1 \<le> \<bar>m\<bar>" by simp
  then have one: "1 \<le> \<bar>real_of_int m\<bar>"
    by (metis of_int_abs of_int_1_le_iff)
  have "(2::real) ^ b \<le> 2 ^ 1074" using assms(3) by (intro power_increasing) simp_all
  then have "(1::real) / 2 ^ 1074 \<le> 1 / 2 ^ b"
    by (intro divide_left_mono) simp_all
  also have "\<dots> \<le> \<bar>real_of_int m\<bar> * 2 ^ a / 2 ^ b"
  proof -
    have "1 * 1 \<le> \<bar>real_of_int m\<bar> * 2 ^ a"
      using one by (intro mult_mono) simp_all
    then show ?thesis by (intro divide_right_mono) simp_all
  qed
  finally show "1 / 2 ^ 1074 \<le> \<bar>?v\<bar>" by (simp only: abs)
qed

lemma rounding_rnd_exact: "rounding rnd_exact"
proof -
  define e :: real where "e = 1 / 2 ^ 1074"
  define M where "M = max_double"
  have e: "0 < e" by (simp add: e_def)
  have "(1::real) \<le> 2 ^ 1023" by simp
  then have "1 \<le> M" unfolding M_def using max_double_ge by (rule order_trans)
  moreover have "e \<le> 1" by (simp add: e_def divide_le_eq)
  ultimately have eM: "e \<le> M" by linarith
  have def: "rnd_exact x = (if M < x then PInf else if x < - M then NInf
                            else if \<bar>x\<bar> < e then Num 0 else Num x)" for x
    by (simp only: rnd_exact_def M_def e_def)
  have 1: "\<forall>x. rnd_exact x \<noteq> NaN" by (simp add: def)
  have 2: "\<forall>x y. x \<le> y \<longrightarrow> \<not> fl_gt (rnd_exact x) (rnd_exact y)"
    using e eM by (auto simp: def)
  have 3: "\<forall>m a b. \<bar>m\<bar> \<le> 2 ^ 53 \<and> a \<le> 970 \<and> b \<le> 1074 \<longrightarrow>
        rnd_exact (real_of_int m * 2 ^ a / 2 ^ b) = Num (real_of_int m * 2 ^ a / 2 ^ b)"
  proof (intro allI impI)
    fix m :: int and a b :: nat
    assume h: "\<bar>m\<bar> \<le> 2 ^ 53 \<and> a \<le> 970 \<and> b \<le> 1074"
    let ?v = "real_of_int m * 2 ^ a / 2 ^ b"
    have le: "\<bar>?v\<bar> \<le> M" unfolding M_def using h by (intro double_magnitude(1)) simp_all
    show "rnd_exact ?v = Num ?v"
    proof (cases "m = 0")
      case True
      then show ?thesis using e eM by (simp add: def)
    next
      case False
      have "e \<le> \<bar>?v\<bar>" unfolding e_def using h False by (intro double_magnitude(2)) simp_all
      then show ?thesis using le unfolding def by (simp only: abs_le_iff) auto
    qed
  qed
  have 4: "\<forall>x y. rnd_exact x = Num y \<longrightarrow> y = 0 \<or> 1 / 2 ^ 1074 \<le> \<bar>y\<bar>"
    unfolding e_def[symmetric] by (auto simp: def split: if_splits)
  show ?thesis unfolding rounding_def using 1 2 3 4 by blast
qed

subsection \<open>The scoring step and the loop of \<open>detect\<close>\<close>

lemma take4_ascii_letters: "take 4 ascii_letters = ''abcd''"
  by (simp add: ascii_letters_def)

lemma get_words_ok:
  assumes "rounding rnd" "0 < ws" "0 < wfac" "wfac * ws \<le> 2 ^ 53"
    and "\<forall>x\<in>set window. fl_within (2 ^ 400) x"
  shows "\<exists>words. get_words rnd ppf window (wfac * ws) ws = Inr words
           \<and> length words = length window div (wfac * ws)
           \<and> (\<forall>w\<in>set words. length w = ws \<and> set w \<subseteq> set ''abcd'')"
proof -
  let ?W = "wfac * ws"
  let ?f = "\<lambda>i. sax rnd ppf (take ?W (drop (i * ?W) window)) 4 ws"
  have W: "0 < ?W" using assms(2,3) by simp
  have "\<forall>i\<in>set [0..<length window div ?W].
          \<exists>w. ?f i = Inr w \<and> (length w = ws \<and> set w \<subseteq> set ''abcd'')"
  proof
    fix i assume "i \<in> set [0..<length window div ?W]"
    then have "Suc i \<le> length window div ?W" by simp
    then have "Suc i * ?W \<le> length window"
      using W by (simp only: less_eq_div_iff_mult_less_eq)
    then have len: "length (take ?W (drop (i * ?W) window)) = wfac * ws" by simp
    have "set (take ?W (drop (i * ?W) window)) \<subseteq> set window"
      using set_take_subset[of ?W "drop (i * ?W) window"] set_drop_subset[of "i * ?W" window]
      by blast
    then have bnd: "\<forall>x\<in>set (take ?W (drop (i * ?W) window)). fl_within (2 ^ 400) x"
      using assms(5) by blast
    have le: "length (take ?W (drop (i * ?W) window)) \<le> 2 ^ 53"
      using len assms(4) by (simp only:)
    have a: "(0::nat) < 4" "(4::nat) \<le> 52" by simp_all
    from sax_ok[OF assms(1,2,3) len a bnd le, of ppf]
    show "\<exists>w. ?f i = Inr w \<and> (length w = ws \<and> set w \<subseteq> set ''abcd'')"
      by (simp only: take4_ascii_letters)
  qed
  from map_err_ok[OF this] show ?thesis using W by (simp add: get_words_def)
qed

lemma size_count_frequencies_abcd: "Mapping.size (count_frequencies ws ''abcd'' 2) = 4 * 4"
proof -
  have "card (build_combinations ''abcd'' 2) = (card (set ''abcd''))\<^sup>2"
    by (rule card_build_combinations_two)
  also have "card (set ''abcd'') = 4" by simp
  finally show ?thesis
    by (simp add: Mapping.size_def keys_count_frequencies finite_build_combinations)
qed

lemma dict_values_nonempty:
  "Mapping.size fr = Suc m \<Longrightarrow> dict_values fr \<noteq> []"
  using ordered_keys_of_size(1)[of fr "Suc m"] by (auto simp: dict_values_def)

lemma scoring_step_ok:
  assumes "0 < word_size d" "window_size d = wfac * word_size d" "0 < wfac"
    and "alphabet d = ''abcd''" "recursion_level d = 2"
    and "rounding rnd" "window_size d \<le> 2 ^ 53"
    and "\<forall>x\<in>set (lead_window d) \<union> set (lag_window d). fl_within (2 ^ 400) x"
  shows "\<exists>a nf. scoring_step rnd ppf d = Inr (a, nf)"
proof -
  have W: "wfac * word_size d \<le> 2 ^ 53" using assms(2,7) by simp
  have bl: "\<forall>x\<in>set (lead_window d). fl_within (2 ^ 400) x"
    and bg: "\<forall>x\<in>set (lag_window d). fl_within (2 ^ 400) x"
    using assms(8) by blast+
  obtain lw where lw: "get_words rnd ppf (lead_window d) (window_size d) (word_size d) = Inr lw"
    using get_words_ok[OF assms(6,1,3) W bl, of ppf] assms(2) by auto
  obtain gw where gw: "get_words rnd ppf (lag_window d) (window_size d) (word_size d) = Inr gw"
    using get_words_ok[OF assms(6,1,3) W bg, of ppf] assms(2) by auto
  let ?lf = "count_frequencies lw ''abcd'' 2"
  let ?gf = "count_frequencies gw ''abcd'' 2"
  have "dict_values ?lf @ dict_values ?gf \<noteq> []"
    using dict_values_nonempty[of ?lf 15] size_count_frequencies_abcd[of lw] by simp
  then obtain nf where nf: "py_max (dict_values ?lf @ dict_values ?gf) = Inr nf"
    using py_max_Max by blast
  obtain b1 where b1: "build_bitmap ?lf nf = Inr b1"
    using build_bitmap_square[OF size_count_frequencies_abcd, of lw nf] by blast
  obtain b2 where b2: "build_bitmap ?gf nf = Inr b2"
    using build_bitmap_square[OF size_count_frequencies_abcd, of gw nf] by blast
  show ?thesis
    using lw gw nf b1 b2 assms(4,5) by (simp add: scoring_step_def Let_def)
qed

lemma detect_step_unfold:
  assumes "0 < lead_maxlen d" "length (lead_window d) \<le> lead_maxlen d"
  shows "\<exists>d2. lead_window d2
               = (if length (lead_window d) = lead_maxlen d then tl (lead_window d)
                  else lead_window d) @ [x]
           \<and> lag_window d2
               = (if length (lead_window d) = lead_maxlen d
                  then deque_append (lag_maxlen d) (lag_window d) (hd (lead_window d))
                  else lag_window d)
           \<and> word_size d2 = word_size d \<and> window_size d2 = window_size d
           \<and> universe_size d2 = universe_size d
           \<and> lead_maxlen d2 = lead_maxlen d \<and> lag_maxlen d2 = lag_maxlen d
           \<and> recursion_level d2 = recursion_level d \<and> alphabet d2 = alphabet d
           \<and> detect_step rnd ppf d x
               = (if length (lead_window d2) = lead_maxlen d2
                     \<and> length (lag_window d2) = lag_maxlen d2
                  then (case scoring_step rnd ppf d2 of
                          Inl e \<Rightarrow> Inl e
                        | Inr (result, norm_factor) \<Rightarrow> Inr (d2, Some result))
                  else Inr (d2, None))"
proof (cases "length (lead_window d) = lead_maxlen d")
  case True
  then obtain y rest where yr: "lead_window d = y # rest"
    using assms(1) by (cases "lead_window d") auto
  let ?d2 = "d\<lparr> lag_window := deque_append (lag_maxlen d) (lag_window d) y,
                lead_window := rest @ [x] \<rparr>"
  have app: "deque_append (lead_maxlen d) rest x = rest @ [x]"
    using True yr by (simp add: deque_append_def Let_def)
  have "detect_step rnd ppf d x
        = (if length (lead_window ?d2) = lead_maxlen ?d2
              \<and> length (lag_window ?d2) = lag_maxlen ?d2
           then (case scoring_step rnd ppf ?d2 of
                   Inl e \<Rightarrow> Inl e
                 | Inr (result, norm_factor) \<Rightarrow> Inr (?d2, Some result))
           else Inr (?d2, None))"
    using True yr by (simp add: detect_step_def app Let_def)
  then show ?thesis
    using True yr by (intro exI[of _ ?d2]) simp
next
  case False
  let ?d2 = "d\<lparr> lead_window := lead_window d @ [x] \<rparr>"
  have app: "deque_append (lead_maxlen d) (lead_window d) x = lead_window d @ [x]"
    using False assms(2) by (simp add: deque_append_def Let_def)
  have "detect_step rnd ppf d x
        = (if length (lead_window ?d2) = lead_maxlen ?d2
              \<and> length (lag_window ?d2) = lag_maxlen ?d2
           then (case scoring_step rnd ppf ?d2 of
                   Inl e \<Rightarrow> Inl e
                 | Inr (result, norm_factor) \<Rightarrow> Inr (?d2, Some result))
           else Inr (?d2, None))"
    using False by (simp add: detect_step_def app Let_def)
  then show ?thesis
    using False by (intro exI[of _ ?d2]) simp
qed

lemma length_deque_append:
  "length dq \<le> maxlen \<Longrightarrow> length (deque_append maxlen dq x) = min (Suc (length dq)) maxlen"
  by (auto simp: deque_append_def Let_def)

lemma detect_loop_append:
  "detect_loop rnd ppf d (xs @ ys) acc
   = (case detect_loop rnd ppf d xs acc of
        Inl e \<Rightarrow> Inl e
      | Inr (res, d') \<Rightarrow> detect_loop rnd ppf d' ys res)"
  by (induction xs arbitrary: d acc) (simp_all split: sum.splits prod.splits option.splits)

lemma set_deque_append: "set (deque_append maxlen dq x) \<subseteq> insert x (set dq)"
proof -
  have "set (tl (dq @ [x])) \<subseteq> set (dq @ [x])"
    by (cases "dq @ [x]") auto
  then show ?thesis by (auto simp: deque_append_def Let_def)
qed

text \<open>
  The number of records a run appends, from any state whose windows respect their
  capacities: \<open>t\<close> datapoints are missing until both windows are full, the free places
  of the lead window and of the lag window together, and every datapoint from the
  \<open>t\<close>-th on appends one record, provided its scoring step does not raise: it does not
  when all datapoints are finite and of magnitude at most \<open>2\<^sup>4\<^sup>0\<^sup>0\<close>. Fewer than \<open>t\<close>
  datapoints are taken in whatever they are.
\<close>

lemma detect_loop_count:
  assumes "0 < word_size d" "window_size d = wfac * word_size d" "0 < wfac"
    and "alphabet d = ''abcd''" "recursion_level d = 2"
    and "0 < lead_maxlen d" "length (lead_window d) \<le> lead_maxlen d"
    and "length (lag_window d) \<le> lag_maxlen d"
    and "length xs < (lead_maxlen d - length (lead_window d))
                       + (lag_maxlen d - length (lag_window d))
         \<or> (rounding rnd \<and> window_size d \<le> 2 ^ 53
            \<and> (\<forall>x\<in>set xs \<union> set (lead_window d) \<union> set (lag_window d). fl_within (2 ^ 400) x))"
  shows "\<exists>new d'. detect_loop rnd ppf d xs acc = Inr (acc @ new, d')
           \<and> length new
               = length xs - ((lead_maxlen d - length (lead_window d))
                              + (lag_maxlen d - length (lag_window d)) - 1)
           \<and> length (lead_window d') = min (length (lead_window d) + length xs) (lead_maxlen d)
           \<and> length (lag_window d')
               = min (length (lag_window d)
                      + (length xs - (lead_maxlen d - length (lead_window d))))
                   (lag_maxlen d)
           \<and> lead_maxlen d' = lead_maxlen d \<and> lag_maxlen d' = lag_maxlen d
           \<and> word_size d' = word_size d \<and> window_size d' = window_size d
           \<and> universe_size d' = universe_size d
           \<and> alphabet d' = alphabet d \<and> recursion_level d' = recursion_level d"
  using assms
proof (induction xs arbitrary: d acc)
  case Nil
  then show ?case by simp
next
  case (Cons x xs)
  let ?L = "lead_maxlen d" and ?G = "lag_maxlen d"
  let ?l = "length (lead_window d)" and ?g = "length (lag_window d)"
  from detect_step_unfold[OF Cons.prems(6,7), where x = x and rnd = rnd and ppf = ppf]
  obtain d2 where d2:
    "lead_window d2 = (if ?l = ?L then tl (lead_window d) else lead_window d) @ [x]"
    "lag_window d2 = (if ?l = ?L then deque_append ?G (lag_window d) (hd (lead_window d))
                      else lag_window d)"
    "word_size d2 = word_size d" "window_size d2 = window_size d"
    "lead_maxlen d2 = ?L" "lag_maxlen d2 = ?G"
    "recursion_level d2 = recursion_level d" "alphabet d2 = alphabet d"
    "universe_size d2 = universe_size d"
    and step: "detect_step rnd ppf d x
               = (if length (lead_window d2) = lead_maxlen d2
                     \<and> length (lag_window d2) = lag_maxlen d2
                  then (case scoring_step rnd ppf d2 of
                          Inl e \<Rightarrow> Inl e
                        | Inr (result, norm_factor) \<Rightarrow> Inr (d2, Some result))
                  else Inr (d2, None))"
    by blast
  let ?l2 = "length (lead_window d2)" and ?g2 = "length (lag_window d2)"
  have l2: "?l2 = (if ?l = ?L then ?L else Suc ?l)"
    using d2(1) Cons.prems(6) by auto
  have g2: "?g2 = (if ?l = ?L then min (Suc ?g) ?G else ?g)"
    using d2(2) Cons.prems(8) by (simp add: length_deque_append)
  let ?t = "(?L - ?l) + (?G - ?g)"
  let ?t2 = "(?L - ?l2) + (?G - ?g2)"
  have t2: "?t2 = ?t - 1"
    using l2 g2 Cons.prems(7,8) by (auto simp: min_def)
  have full: "(?l2 = ?L \<and> ?g2 = ?G) \<longleftrightarrow> ?t \<le> 1"
    using l2 g2 Cons.prems(7,8) by (auto simp: min_def)
  have le2: "?l2 \<le> lead_maxlen d2" "?g2 \<le> lag_maxlen d2"
    using l2 g2 d2(5,6) Cons.prems(7,8) by (auto simp: min_def)
  have cfg2: "0 < word_size d2" "window_size d2 = wfac * word_size d2" "0 < wfac"
    "alphabet d2 = ''abcd''" "recursion_level d2 = 2" "0 < lead_maxlen d2"
    using d2 Cons.prems by simp_all
  have sub_lead: "set (lead_window d2) \<subseteq> insert x (set (lead_window d))"
  proof -
    have "set (tl (lead_window d)) \<subseteq> set (lead_window d)"
      by (cases "lead_window d") auto
    then show ?thesis using d2(1) by auto
  qed
  have sub_lag: "set (lag_window d2) \<subseteq> set (lead_window d) \<union> set (lag_window d)"
  proof (cases "?l = ?L")
    case True
    then have "lead_window d \<noteq> []" using Cons.prems(6) by auto
    then have "hd (lead_window d) \<in> set (lead_window d)" by simp
    then show ?thesis
      using True d2(2) set_deque_append[of ?G "lag_window d" "hd (lead_window d)"] by auto
  next
    case False
    then show ?thesis using d2(2) by simp
  qed
  have bnd: "rounding rnd \<and> window_size d2 \<le> 2 ^ 53
             \<and> (\<forall>y\<in>set xs \<union> set (lead_window d2) \<union> set (lag_window d2). fl_within (2 ^ 400) y)"
    if b: "rounding rnd \<and> window_size d \<le> 2 ^ 53
           \<and> (\<forall>y\<in>set (x # xs) \<union> set (lead_window d) \<union> set (lag_window d).
                 fl_within (2 ^ 400) y)"
  proof -
    have "fl_within (2 ^ 400) y"
      if "y \<in> set xs \<union> set (lead_window d2) \<union> set (lag_window d2)" for y
    proof -
      have "y \<in> set (x # xs) \<union> set (lead_window d) \<union> set (lag_window d)"
        using that sub_lead sub_lag by auto
      then show ?thesis using b by blast
    qed
    then show ?thesis using b d2(4) by simp
  qed
  have H2: "length xs < ?t2
            \<or> (rounding rnd \<and> window_size d2 \<le> 2 ^ 53
               \<and> (\<forall>y\<in>set xs \<union> set (lead_window d2) \<union> set (lag_window d2).
                     fl_within (2 ^ 400) y))"
  proof (cases "length (x # xs) < ?t")
    case True
    then have "length xs < ?t2" unfolding t2 by simp
    then show ?thesis by (rule disjI1)
  next
    case False
    then have "rounding rnd \<and> window_size d \<le> 2 ^ 53
           \<and> (\<forall>y\<in>set (x # xs) \<union> set (lead_window d) \<union> set (lag_window d).
                 fl_within (2 ^ 400) y)"
      using Cons.prems(9) by blast
    then show ?thesis by (rule disjI2[OF bnd])
  qed
  note IH = Cons.IH[OF cfg2 le2, unfolded d2(5,6), OF H2]
  have lead_eq: "min (?l2 + length xs) ?L = min (?l + length (x # xs)) ?L"
    using l2 Cons.prems(7) by (auto simp: min_def)
  have lag_eq: "min (?g2 + (length xs - (?L - ?l2))) ?G
                = min (?g + (length (x # xs) - (?L - ?l))) ?G"
    using l2 g2 Cons.prems(7,8) by (auto simp: min_def)
  show ?case
  proof (cases "?t \<le> 1")
    case True
    then have "\<not> length (x # xs) < ?t" by simp
    then have b: "rounding rnd \<and> window_size d \<le> 2 ^ 53
           \<and> (\<forall>y\<in>set (x # xs) \<union> set (lead_window d) \<union> set (lag_window d).
                 fl_within (2 ^ 400) y)"
      using Cons.prems(9) by blast
    have b2: "rounding rnd" "window_size d2 \<le> 2 ^ 53"
      "\<forall>y\<in>set (lead_window d2) \<union> set (lag_window d2). fl_within (2 ^ 400) y"
      using bnd[OF b] by blast+
    obtain a nf where a: "scoring_step rnd ppf d2 = Inr (a, nf)"
      using scoring_step_ok[OF cfg2(1,2,3,4,5) b2] by blast
    have "detect_step rnd ppf d x = Inr (d2, Some a)"
      using step full True a d2(5,6) by simp
    then have loop: "detect_loop rnd ppf d (x # xs) acc = detect_loop rnd ppf d2 xs (acc @ [a])"
      by simp
    from IH[of "acc @ [a]"] obtain new d' where new:
      "detect_loop rnd ppf d2 xs (acc @ [a]) = Inr ((acc @ [a]) @ new, d')"
      "length new = length xs - (?t2 - 1)"
      "length (lead_window d') = min (?l2 + length xs) ?L"
      "length (lag_window d') = min (?g2 + (length xs - (?L - ?l2))) ?G"
      "lead_maxlen d' = ?L" "lag_maxlen d' = ?G"
      "word_size d' = word_size d2" "window_size d' = window_size d2"
      "universe_size d' = universe_size d2"
      "alphabet d' = alphabet d2" "recursion_level d' = recursion_level d2"
      by blast
    have r1: "length (a # new) = length (x # xs) - (?t - 1)"
      using new(2) t2 True by simp
    have r2: "detect_loop rnd ppf d (x # xs) acc = Inr (acc @ (a # new), d')"
      using loop new(1) by simp
    have r3: "length (lead_window d') = min (?l + length (x # xs)) ?L"
      by (simp only: new(3) lead_eq)
    have r4: "length (lag_window d') = min (?g + (length (x # xs) - (?L - ?l))) ?G"
      by (simp only: new(4) lag_eq)
    have c: "word_size d' = word_size d" "window_size d' = window_size d"
      "universe_size d' = universe_size d" "alphabet d' = alphabet d"
      "recursion_level d' = recursion_level d"
      using new(7-11) d2(3,4,7,8,9) by simp_all
    show ?thesis
      by (intro exI[of _ "a # new"] exI[of _ d'] conjI r1 r2 r3 r4 new(5,6) c)
  next
    case False
    have "detect_step rnd ppf d x = Inr (d2, None)"
      using step full False d2(5,6) by simp
    then have loop: "detect_loop rnd ppf d (x # xs) acc = detect_loop rnd ppf d2 xs acc"
      by simp
    from IH[of acc] obtain new d' where new:
      "detect_loop rnd ppf d2 xs acc = Inr (acc @ new, d')"
      "length new = length xs - (?t2 - 1)"
      "length (lead_window d') = min (?l2 + length xs) ?L"
      "length (lag_window d') = min (?g2 + (length xs - (?L - ?l2))) ?G"
      "lead_maxlen d' = ?L" "lag_maxlen d' = ?G"
      "word_size d' = word_size d2" "window_size d' = window_size d2"
      "universe_size d' = universe_size d2"
      "alphabet d' = alphabet d2" "recursion_level d' = recursion_level d2"
      by blast
    have r1: "length new = length (x # xs) - (?t - 1)"
      using new(2) t2 False by simp
    have r2: "detect_loop rnd ppf d (x # xs) acc = Inr (acc @ new, d')"
      using loop new(1) by simp
    have r3: "length (lead_window d') = min (?l + length (x # xs)) ?L"
      by (simp only: new(3) lead_eq)
    have r4: "length (lag_window d') = min (?g + (length (x # xs) - (?L - ?l))) ?G"
      by (simp only: new(4) lag_eq)
    have c: "word_size d' = word_size d" "window_size d' = window_size d"
      "universe_size d' = universe_size d" "alphabet d' = alphabet d"
      "recursion_level d' = recursion_level d"
      using new(7-11) d2(3,4,7,8,9) by simp_all
    show ?thesis
      by (intro exI[of _ new] exI[of _ d'] conjI r1 r2 r3 r4 new(5,6) c)
  qed
qed

lemma detect_step_Some:
  assumes "detect_step rnd ppf d x = Inr (d', Some a)"
  shows "\<exists>nf. scoring_step rnd ppf d' = Inr (a, nf)
           \<and> length (lead_window d') = lead_maxlen d'
           \<and> length (lag_window d') = lag_maxlen d'"
  using assms
  by (auto simp: detect_step_def Let_def split: if_splits list.splits sum.splits)

lemma detect_loop_emitted:
  assumes "detect_loop rnd ppf d xs acc = Inr (res, d')" "I d"
    and "\<forall>d x d2 r. I d \<longrightarrow> x \<in> set xs \<longrightarrow> detect_step rnd ppf d x = Inr (d2, r) \<longrightarrow> I d2"
  shows "\<exists>new. res = acc @ new
           \<and> (\<forall>a\<in>set new. \<exists>d2 nf. I d2
                  \<and> length (lead_window d2) = lead_maxlen d2
                  \<and> length (lag_window d2) = lag_maxlen d2
                  \<and> scoring_step rnd ppf d2 = Inr (a, nf))"
  using assms
proof (induction xs arbitrary: d acc)
  case Nil
  then show ?case by simp
next
  case (Cons x xs)
  obtain d2 r where step: "detect_step rnd ppf d x = Inr (d2, r)"
  proof (cases "detect_step rnd ppf d x")
    case (Inl e)
    then show ?thesis using Cons.prems(1) by simp
  next
    case (Inr p)
    then show ?thesis using that by (cases p) simp
  qed
  have I2: "I d2"
    using Cons.prems(3)[rule_format, of d x d2 r] Cons.prems(2) step by simp
  have pres: "\<forall>d x d2 r. I d \<longrightarrow> x \<in> set xs \<longrightarrow> detect_step rnd ppf d x = Inr (d2, r) \<longrightarrow> I d2"
  proof (intro allI impI)
    fix e y e2 r2
    assume "I e" "y \<in> set xs" "detect_step rnd ppf e y = Inr (e2, r2)"
    then show "I e2" using Cons.prems(3)[rule_format, of e y e2 r2] by simp
  qed
  show ?case
  proof (cases r)
    case None
    then have "detect_loop rnd ppf d2 xs acc = Inr (res, d')"
      using Cons.prems(1) step by simp
    then show ?thesis by (rule Cons.IH[OF _ I2 pres])
  next
    case (Some a)
    then have "detect_loop rnd ppf d2 xs (acc @ [a]) = Inr (res, d')"
      using Cons.prems(1) step by simp
    then have "\<exists>new. res = (acc @ [a]) @ new
           \<and> (\<forall>a\<in>set new. \<exists>d2 nf. I d2
                  \<and> length (lead_window d2) = lead_maxlen d2
                  \<and> length (lag_window d2) = lag_maxlen d2
                  \<and> scoring_step rnd ppf d2 = Inr (a, nf))"
      by (rule Cons.IH[OF _ I2 pres])
    then obtain new where new: "res = (acc @ [a]) @ new"
      and rest: "\<And>b. b \<in> set new \<Longrightarrow> \<exists>d3 nf. I d3
                  \<and> length (lead_window d3) = lead_maxlen d3
                  \<and> length (lag_window d3) = lag_maxlen d3
                  \<and> scoring_step rnd ppf d3 = Inr (b, nf)"
      by blast
    have "detect_step rnd ppf d x = Inr (d2, Some a)" using step Some by simp
    then have first: "\<exists>nf. scoring_step rnd ppf d2 = Inr (a, nf)
           \<and> length (lead_window d2) = lead_maxlen d2
           \<and> length (lag_window d2) = lag_maxlen d2"
      by (rule detect_step_Some)
    have "\<exists>d3 nf. I d3
                  \<and> length (lead_window d3) = lead_maxlen d3
                  \<and> length (lag_window d3) = lag_maxlen d3
                  \<and> scoring_step rnd ppf d3 = Inr (b, nf)"
      if "b \<in> set (a # new)" for b
    proof (cases "b = a")
      case True
      then show ?thesis using first I2 by blast
    next
      case False
      then have "b \<in> set new" using that by simp
      then show ?thesis by (rule rest)
    qed
    moreover have "res = acc @ (a # new)" using new by simp
    ultimately show ?thesis by blast
  qed
qed

lemma init_fields:
  "word_size (AssumptionFreeAA_init ws wfac lf lgf) = ws"
  "window_size (AssumptionFreeAA_init ws wfac lf lgf) = wfac * ws"
  "universe_size (AssumptionFreeAA_init ws wfac lf lgf) = (lf + lgf) * wfac * ws"
  "lead_window (AssumptionFreeAA_init ws wfac lf lgf) = []"
  "lead_maxlen (AssumptionFreeAA_init ws wfac lf lgf) = lf * (wfac * ws)"
  "lag_window (AssumptionFreeAA_init ws wfac lf lgf) = []"
  "lag_maxlen (AssumptionFreeAA_init ws wfac lf lgf) = lgf * (wfac * ws)"
  "recursion_level (AssumptionFreeAA_init ws wfac lf lgf) = 2"
  "alphabet (AssumptionFreeAA_init ws wfac lf lgf) = ''abcd''"
  by (simp_all add: AssumptionFreeAA_init_def Let_def algebra_simps)

lemma detect_fresh_count:
  assumes "0 < ws" "0 < wfac" "0 < lf"
    and "length xs < (lf + lgf) * wfac * ws
         \<or> (rounding rnd \<and> wfac * ws \<le> 2 ^ 53 \<and> (\<forall>x\<in>set xs. fl_within (2 ^ 400) x))"
  shows "\<exists>res d'. detect rnd ppf (AssumptionFreeAA_init ws wfac lf lgf) xs = Inr (res, d')
           \<and> length res = length xs - ((lf + lgf) * wfac * ws - 1)
           \<and> length (lead_window d') = min (length xs) (lf * (wfac * ws))
           \<and> length (lag_window d') = min (length xs - lf * (wfac * ws)) (lgf * (wfac * ws))
           \<and> lead_maxlen d' = lf * (wfac * ws) \<and> lag_maxlen d' = lgf * (wfac * ws)"
proof -
  let ?d = "AssumptionFreeAA_init ws wfac lf lgf"
  have U: "(lead_maxlen ?d - length (lead_window ?d)) + (lag_maxlen ?d - length (lag_window ?d))
           = (lf + lgf) * wfac * ws"
    by (simp add: init_fields add_mult_distrib mult.assoc)
  have H: "length xs < (lead_maxlen ?d - length (lead_window ?d))
                       + (lag_maxlen ?d - length (lag_window ?d))
         \<or> (rounding rnd \<and> window_size ?d \<le> 2 ^ 53
            \<and> (\<forall>x\<in>set xs \<union> set (lead_window ?d) \<union> set (lag_window ?d). fl_within (2 ^ 400) x))"
    unfolding U using assms(4) by (simp add: init_fields)
  have c: "0 < word_size ?d" "window_size ?d = wfac * word_size ?d" "0 < wfac"
    "alphabet ?d = ''abcd''" "recursion_level ?d = 2" "0 < lead_maxlen ?d"
    "length (lead_window ?d) \<le> lead_maxlen ?d" "length (lag_window ?d) \<le> lag_maxlen ?d"
    using assms(1,2,3) by (simp_all add: init_fields)
  from detect_loop_count[OF c H, of ppf "[]"]
  obtain new d' where r: "detect_loop rnd ppf ?d xs [] = Inr ([] @ new, d')"
    "length new = length xs - ((lead_maxlen ?d - length (lead_window ?d))
                              + (lag_maxlen ?d - length (lag_window ?d)) - 1)"
    "length (lead_window d') = min (length (lead_window ?d) + length xs) (lead_maxlen ?d)"
    "length (lag_window d')
       = min (length (lag_window ?d) + (length xs - (lead_maxlen ?d - length (lead_window ?d))))
           (lag_maxlen ?d)"
    "lead_maxlen d' = lead_maxlen ?d" "lag_maxlen d' = lag_maxlen ?d"
    by auto
  have 1: "detect rnd ppf ?d xs = Inr (new, d')" using r(1) by (simp add: detect_def)
  have 2: "length new = length xs - ((lf + lgf) * wfac * ws - 1)" using r(2) unfolding U .
  have 3: "length (lead_window d') = min (length xs) (lf * (wfac * ws))"
    using r(3) by (simp add: init_fields)
  have 4: "length (lag_window d') = min (length xs - lf * (wfac * ws)) (lgf * (wfac * ws))"
    using r(4) by (simp add: init_fields)
  have 5: "lead_maxlen d' = lf * (wfac * ws)" "lag_maxlen d' = lgf * (wfac * ws)"
    using r(5,6) by (simp_all add: init_fields)
  show ?thesis by (intro exI[of _ new] exI[of _ d'] conjI 1 2 3 4 5)
qed



lemma rnd_exact_overflow: "rnd_exact (2 ^ 1023 + 2 ^ 1023) = PInf"
proof -
  have "max_double < 2 ^ 1024"
  proof -
    have "max_double < 2 ^ 53 * 2 ^ 971"
      unfolding max_double_def by (intro mult_strict_right_mono) simp_all
    also have "\<dots> = 2 ^ 1024" by (simp only: power_add[symmetric]) simp
    finally show ?thesis .
  qed
  moreover have "(2::real) ^ 1023 + 2 ^ 1023 = 2 ^ 1024" by simp
  ultimately show ?thesis by (simp only: rnd_exact_def if_True)
qed

text \<open>
  Two equal datapoints whose sum overflows: the mean is \<open>inf\<close>, the centred data
  \<open>-inf\<close>, its standard deviation \<open>nan\<close>, and so are the scaled data and their means.
\<close>

lemma sax_overflow:
  assumes "rnd (x + x) = PInf"
  shows "sax rnd ppf [Num x, Num x] 4 2 = Inl IndexError"
proof -
  have "np_sum rnd [Num x, Num x] = PInf"
    unfolding assms[symmetric] by (simp only: np_sum.simps foldl_Cons foldl_Nil fadd.simps)
  then have "np_mean rnd [Num x, Num x] = fdiv rnd PInf (Num (real (length [Num x, Num x])))"
    by (simp only: np_mean_def)
  then have mean: "np_mean rnd [Num x, Num x] = PInf" by simp
  have std: "np_std rnd [NInf, NInf] = NaN"
    by (simp add: np_std_def np_mean_def fsub_def Let_def)
  have sc: "scale_data rnd [Num x, Num x] = [NaN, NaN]"
    by (simp add: scale_data_def mean std fsub_def Let_def)
  have sp: "array_split [NaN, NaN] 2 = [[NaN], [NaN]]"
    by (simp add: array_split_def numeral_2_eq_2)
  have m: "np_mean rnd [NaN] = NaN"
    by (simp add: np_mean_def)
  show ?thesis
    by (simp add: sax_def Let_def sc sp m section_location_nan)
qed



subsection \<open>Segments on which the discretizer raises\<close>

lemma sax_empty: "0 < ws \<Longrightarrow> 0 < a \<Longrightarrow> sax rnd ppf [] a ws = Inl IndexError"
proof -
  assume ws: "0 < ws" and a: "0 < a"
  have sc: "scale_data rnd [] = []" by (simp add: scale_data_def Let_def)
  have "array_split ([]::fl list) ws = replicate ws []"
  proof -
    have "split_sizes (replicate n 0) ([]::fl list) = replicate n []" for n
      by (induction n) simp_all
    then show ?thesis by (simp add: array_split_def)
  qed
  then have "map (np_mean rnd) (array_split (scale_data rnd []) ws) = replicate ws NaN"
    by (simp add: sc np_mean_def)
  moreover have "map_err (section_location bps) (replicate ws NaN) = Inl IndexError" for bps
    using ws by (cases ws) (simp_all add: section_location_nan)
  ultimately show ?thesis using ws a by (simp add: sax_def Let_def)
qed

text \<open>
  A mean that no finite breakpoint exceeds is located at the sentinel, the last of the
  \<open>alphbt_size\<close> breakpoints.
\<close>

lemma section_location_last:
  assumes "0 < a" "\<forall>q. ppf q \<le> m"
  shows "section_location (sax_breakpoints ppf a) (Num m) = Inr (a - 1)"
proof -
  let ?bps = "sax_breakpoints ppf a"
  let ?P = "\<lambda>i. fl_gt (?bps ! i) (Num m)"
  have len: "length ?bps = a" and last: "?bps ! (a - 1) = PInf"
    using sax_breakpoints_shape[OF assms(1), of ppf] by simp_all
  have "\<not> ?P i" if "i < a - 1" for i
  proof -
    have "?bps ! i = Num (ppf (linspace (1 / real a) (1 - 1 / real a) (a - 1) ! i))"
      using that by (simp add: sax_breakpoints_def nth_append length_linspace)
    then show ?thesis using assms(2) by (simp add: not_less)
  qed
  then have "filter ?P [0..<a - 1] = []" by (simp add: filter_empty_conv)
  moreover have "[0..<a] = [0..<a - 1] @ [a - 1]"
    using assms(1) by (cases a) simp_all
  moreover have "?P (a - 1)" using last by simp
  ultimately have "np_where_gt ?bps (Num m) = [a - 1]"
    by (simp add: np_where_gt_def len)
  then show ?thesis by (simp add: section_location_def)
qed

lemma rnd_exact_id:
  assumes "x = 0 \<or> 1 / 4 \<le> \<bar>x\<bar>" "\<bar>x\<bar> \<le> 1024"
  shows "rnd_exact x = Num x"
proof -
  have "(1024::real) = 2 ^ 10" by simp
  also have "\<dots> \<le> 2 ^ 1023" by (intro power_increasing) simp_all
  finally have "\<bar>x\<bar> \<le> max_double" using assms(2) max_double_ge by linarith
  then have 1: "\<not> max_double < x" "\<not> x < - max_double" by linarith+
  have "(2::real) ^ 2 \<le> 2 ^ 1074" by (intro power_increasing) simp_all
  then have "(1::real) / 2 ^ 1074 \<le> 1 / 2 ^ 2" by (intro divide_left_mono) simp_all
  then have e: "(1::real) / 2 ^ 1074 \<le> 1 / 4" by simp
  show ?thesis
  proof (cases "x = 0")
    case True
    then show ?thesis by (simp add: rnd_exact_def max_double_def)
  next
    case False
    then have "1 / 2 ^ 1074 \<le> \<bar>x\<bar>" using assms(1) e by linarith
    then have "\<not> \<bar>x\<bar> < 1 / 2 ^ 1074" by linarith
    then show ?thesis using 1 by (simp only: rnd_exact_def if_False)
  qed
qed

lemma outlier_sum:
  "np_sum rnd_exact (map Num [-1, -1, -1, -1, -1, -1, -1, -1, -1, -1, -1, -1, -1, -1, -1, -1, 16])
   = Num 0"
  by (simp add: rnd_exact_id)

lemma outlier_mean:
  "np_mean rnd_exact (map Num [-1, -1, -1, -1, -1, -1, -1, -1, -1, -1, -1, -1, -1, -1, -1, -1, 16])
   = Num 0"
  unfolding np_mean_def outlier_sum by (simp add: rnd_exact_id)

lemma outlier_std:
  "np_std rnd_exact (map Num [-1, -1, -1, -1, -1, -1, -1, -1, -1, -1, -1, -1, -1, -1, -1, -1, 16])
   = Num 4"
proof -
  have s: "sqrt 16 = 4" using real_sqrt_abs[of 4] by simp
  have m: "np_mean rnd_exact (map Num [1, 1, 1, 1, 1, 1, 1, 1, 1, 1, 1, 1, 1, 1, 1, 1, 256])
           = Num 16"
    by (simp add: np_mean_def rnd_exact_id)
  have "map (\<lambda>a. fmul rnd_exact a a)
          (map (\<lambda>a. fsub rnd_exact a (Num 0))
             (map Num [-1, -1, -1, -1, -1, -1, -1, -1, -1, -1, -1, -1, -1, -1, -1, -1, 16]))
        = map Num [1, 1, 1, 1, 1, 1, 1, 1, 1, 1, 1, 1, 1, 1, 1, 1, 256]"
    by (simp add: fsub_def rnd_exact_id)
  then show ?thesis
    unfolding np_std_def Let_def outlier_mean
    using m by (simp add: np_mean_def rnd_exact_id s)
qed

lemma outlier_scaled:
  "scale_data rnd_exact
     (map Num [-1, -1, -1, -1, -1, -1, -1, -1, -1, -1, -1, -1, -1, -1, -1, -1, 16])
   = map Num [- (1 / 4), - (1 / 4), - (1 / 4), - (1 / 4), - (1 / 4), - (1 / 4), - (1 / 4),
              - (1 / 4), - (1 / 4), - (1 / 4), - (1 / 4), - (1 / 4), - (1 / 4), - (1 / 4),
              - (1 / 4), - (1 / 4), 4]"
proof -
  have c: "map (\<lambda>x. fsub rnd_exact x (Num 0))
             (map Num [-1, -1, -1, -1, -1, -1, -1, -1, -1, -1, -1, -1, -1, -1, -1, -1, 16])
           = map Num [-1, -1, -1, -1, -1, -1, -1, -1, -1, -1, -1, -1, -1, -1, -1, -1, 16]"
    by (simp add: fsub_def rnd_exact_id)
  show ?thesis
    unfolding scale_data_def Let_def outlier_mean c outlier_std
    by (simp add: rnd_exact_id)
qed

lemma split_sizes_singletons:
  "length xs = n \<Longrightarrow> split_sizes (replicate n (Suc 0)) xs = map (\<lambda>x. [x]) xs"
proof (induction n arbitrary: xs)
  case 0
  then show ?case by simp
next
  case (Suc n)
  then obtain y ys where "xs = y # ys" "length ys = n" by (cases xs) auto
  then show ?case using Suc.IH[of ys] by simp
qed

lemma array_split_singletons:
  assumes "xs \<noteq> []"
  shows "array_split xs (length xs) = map (\<lambda>x. [x]) xs"
  using assms split_sizes_singletons[of xs "length xs"] by (simp add: array_split_def)

lemma letter_at_cases: "letter_at i = Inl IndexError \<or> (\<exists>c. letter_at i = Inr c)"
  by (simp add: letter_at_def)

lemma ppf_coarse_le: "ppf_coarse q \<le> 4"
  by (simp add: ppf_coarse_def)

text \<open>
  With 53 letters asked for, a mean above every finite breakpoint is located at index
  52, one past the last of the 52 letters of \<open>string.ascii_letters\<close>.
\<close>

lemma sax_outlier:
  "sax rnd_exact ppf_coarse
     (map Num [-1, -1, -1, -1, -1, -1, -1, -1, -1, -1, -1, -1, -1, -1, -1, -1, 16]) 53 17
   = Inl IndexError"
proof -
  let ?data = "map Num [-1, -1, -1, -1, -1, -1, -1, -1, -1, -1, -1, -1, -1, -1, -1, -1, 16]"
  let ?vs = "[- (1 / 4), - (1 / 4), - (1 / 4), - (1 / 4), - (1 / 4), - (1 / 4), - (1 / 4),
              - (1 / 4), - (1 / 4), - (1 / 4), - (1 / 4), - (1 / 4), - (1 / 4), - (1 / 4),
              - (1 / 4), - (1 / 4), 4 :: real]"
  let ?bps = "sax_breakpoints ppf_coarse 53"
  let ?f = "section_location ?bps"
  let ?g = "\<lambda>m. case ?f m of Inr i \<Rightarrow> i | Inl e \<Rightarrow> 0"
  have len: "length (map Num ?vs) = 17" by simp
  have ne: "map Num ?vs \<noteq> []" by simp
  have "array_split (map Num ?vs) (length (map Num ?vs)) = map (\<lambda>x. [x]) (map Num ?vs)"
    using ne by (rule array_split_singletons)
  then have secs: "array_split (map Num ?vs) 17 = map (\<lambda>x. [x]) (map Num ?vs)"
    unfolding len .
  have one: "np_mean rnd_exact [Num v] = Num v" if "v = 0 \<or> 1 / 4 \<le> \<bar>v\<bar>" "\<bar>v\<bar> \<le> 1024" for v
    using rnd_exact_id[OF that] by (simp add: np_mean_def)
  have means: "map (np_mean rnd_exact) (map (\<lambda>x. [x]) (map Num ?vs)) = map Num ?vs"
    by (simp add: one)
  have a: "(0::nat) < 53" by simp
  have bps: "0 < length ?bps" "?bps ! (length ?bps - 1) = PInf"
    using sax_breakpoints_shape[OF a, of ppf_coarse] by simp_all
  have "\<forall>m\<in>set (map Num ?vs). ?f m = Inr (?g m)"
  proof
    fix m assume "m \<in> set (map Num ?vs)"
    then have "m \<noteq> NaN" "m \<noteq> PInf" by auto
    from section_location_ok[OF bps this] show "?f m = Inr (?g m)" by auto
  qed
  then have locs: "map_err ?f (map Num ?vs) = Inr (map ?g (map Num ?vs))"
    by (rule map_err_map)
  have "?f (Num 4) = Inr (53 - 1)"
    using ppf_coarse_le by (intro section_location_last) simp_all
  then have "?g (Num 4) = 52" by simp
  then have "52 \<in> set (map ?g (map Num ?vs))" by (simp del: Fun.comp_apply)
  moreover have "letter_at 52 = Inl IndexError" by (simp add: letter_at_def ascii_letters_def)
  ultimately have "\<exists>i\<in>set (map ?g (map Num ?vs)). letter_at i = Inl IndexError" by blast
  then have "map_err letter_at (map ?g (map Num ?vs)) = Inl IndexError"
    using letter_at_cases by (intro map_err_fails) blast+
  then show ?thesis
    unfolding sax_def Let_def outlier_scaled secs means locs by simp
qed

subsection \<open>Claim on the discretizer\<close>

text \<open>
  Claim C6, as amended. For a segment of length \<open>k * word_size\<close> (\<open>word_size > 0\<close>) and
  an alphabet size between 1 and 52, the number of letters of \<open>string.ascii_letters\<close>:
  the discretizer returns a word exactly when no mean of a sub-segment of the scaled
  data is \<open>nan\<close> or \<open>+inf\<close>, and raises \<open>IndexError\<close> otherwise; a word it returns has
  length \<open>word_size\<close> and its symbols are among the first \<open>alphbt_size\<close> letters; and it
  does return a word when the segment is not empty (\<open>k > 0\<close>) and its datapoints are
  finite, of magnitude at most \<open>2\<^sup>4\<^sup>0\<^sup>0\<close> (and at most \<open>2\<^sup>5\<^sup>3\<close> in number). There are
  \<open>alphbt_size\<close> breakpoints, the last of them the sentinel: it is greater than every
  finite mean, not than \<open>nan\<close>.

  The claim as stated covers every segment of length \<open>k * word_size\<close> and every
  alphabet size. The counterexample has the three ways in which it fails: the empty
  segment (\<open>k = 0\<close>), where the mean of every sub-segment is \<open>nan\<close>; two datapoints
  \<open>2\<^sup>1\<^sup>0\<^sup>2\<^sup>3\<close>, whose sum overflows; and 53 letters asked for, on sixteen datapoints
  \<open>-1\<close> and one \<open>16\<close>, scaled to \<open>-1/4\<close> and \<open>4\<close>, where the mean \<open>4\<close> is above the 52
  finite breakpoints and index 52 is one past the last letter. (\<open>ppf_coarse\<close> stands for
  \<open>norm.ppf\<close> there; the example only needs the breakpoints to be at most 4, and
  \<open>norm.ppf (52/53)\<close> is about \<open>2.08\<close>.)
\<close>

theorem sax_word:
  assumes "0 < ws" "length data = k * ws" "0 < a" "a \<le> 52"
  shows "((\<exists>w. sax rnd ppf data a ws = Inr w) \<longleftrightarrow>
            (\<forall>m\<in>set (map (np_mean rnd) (array_split (scale_data rnd data) ws)).
               m \<noteq> NaN \<and> m \<noteq> PInf))
       \<and> (\<forall>w. sax rnd ppf data a ws = Inr w \<longrightarrow>
               length w = ws \<and> set w \<subseteq> set (take a ascii_letters))
       \<and> ((\<nexists>w. sax rnd ppf data a ws = Inr w) \<longrightarrow> sax rnd ppf data a ws = Inl IndexError)
       \<and> (rounding rnd \<and> 0 < k \<and> length data \<le> 2 ^ 53
            \<and> (\<forall>x\<in>set data. fl_within (2 ^ 400) x) \<longrightarrow>
              (\<exists>w. sax rnd ppf data a ws = Inr w))
       \<and> length (sax_breakpoints ppf a) = a
       \<and> last (sax_breakpoints ppf a) = PInf"
proof -
  let ?ok = "\<forall>m\<in>set (map (np_mean rnd) (array_split (scale_data rnd data) ws)).
               m \<noteq> NaN \<and> m \<noteq> PInf"
  note c = sax_cases[OF assms, of rnd ppf]
  have A: "\<exists>w. sax rnd ppf data a ws = Inr w \<and> length w = ws
                \<and> set w \<subseteq> set (take a ascii_letters)" if ok: "?ok"
    using c unfolding if_P[OF ok] .
  have B: "sax rnd ppf data a ws = Inl IndexError" if nok: "\<not> ?ok"
    using c unfolding if_not_P[OF nok] .
  have 1: "(\<exists>w. sax rnd ppf data a ws = Inr w) \<longleftrightarrow> ?ok"
  proof
    assume "\<exists>w. sax rnd ppf data a ws = Inr w"
    then show ?ok using B by (cases ?ok) auto
  next
    assume ?ok
    from A[OF this] show "\<exists>w. sax rnd ppf data a ws = Inr w" by blast
  qed
  have 2: "\<forall>w. sax rnd ppf data a ws = Inr w \<longrightarrow>
               length w = ws \<and> set w \<subseteq> set (take a ascii_letters)"
  proof (cases ?ok)
    case True
    from A[OF this] show ?thesis by auto
  next
    case False
    from B[OF this] show ?thesis by simp
  qed
  have 3: "(\<nexists>w. sax rnd ppf data a ws = Inr w) \<longrightarrow> sax rnd ppf data a ws = Inl IndexError"
  proof (cases ?ok)
    case True
    from A[OF this] show ?thesis by blast
  next
    case False
    from B[OF this] show ?thesis by simp
  qed
  have 4: "rounding rnd \<and> 0 < k \<and> length data \<le> 2 ^ 53
            \<and> (\<forall>x\<in>set data. fl_within (2 ^ 400) x) \<longrightarrow>
              (\<exists>w. sax rnd ppf data a ws = Inr w)"
  proof
    assume h: "rounding rnd \<and> 0 < k \<and> length data \<le> 2 ^ 53
                \<and> (\<forall>x\<in>set data. fl_within (2 ^ 400) x)"
    then have h': "rounding rnd" "0 < k" "length data \<le> 2 ^ 53"
      "\<forall>x\<in>set data. fl_within (2 ^ 400) x"
      by blast+
    from sax_ok[OF h'(1) assms(1) h'(2) assms(2,3,4) h'(4,3), of ppf]
    show "\<exists>w. sax rnd ppf data a ws = Inr w" by blast
  qed
  have 5: "length (sax_breakpoints ppf a) = a"
    using sax_breakpoints_shape[OF assms(3), of ppf] by simp
  have 6: "last (sax_breakpoints ppf a) = PInf"
    by (simp add: sax_breakpoints_def)
  show ?thesis by (intro conjI 1 2 3 4 5 6)
qed

theorem sax_word_witness:
  "length (map Num [1, 2, 4, 8]) = 2 * 2
   \<and> rounding rnd_exact
   \<and> list_all (fl_within (2 ^ 400)) (map Num [1, 2, 4, 8])
   \<and> (\<exists>w. sax rnd_exact ppf_quartiles (map Num [1, 2, 4, 8]) 4 2 = Inr w
          \<and> length w = 2 \<and> set w \<subseteq> set ''abcd'')"
proof -
  let ?data = "map Num [1, 2, 4, 8]"
  have h: "(0::nat) < 2" "length ?data = 2 * 2" "(0::nat) < 4" "(4::nat) \<le> 52"
    by simp_all
  have b: "\<forall>x\<in>set ?data. fl_within (2 ^ 400) x"
    by (simp add: fl_within_def)
  have l: "length ?data \<le> 2 ^ 53" by simp
  note t = sax_word[OF h, of rnd_exact ppf_quartiles]
  have "rounding rnd_exact \<and> (0::nat) < 2 \<and> length ?data \<le> 2 ^ 53
        \<and> (\<forall>x\<in>set ?data. fl_within (2 ^ 400) x)"
    using rounding_rnd_exact b l by simp
  then obtain w where w: "sax rnd_exact ppf_quartiles ?data 4 2 = Inr w"
    using t by blast
  then have "length w = 2 \<and> set w \<subseteq> set (take 4 ascii_letters)"
    using t by blast
  then have "length w = 2 \<and> set w \<subseteq> set ''abcd''"
    by (simp only: take4_ascii_letters)
  moreover have "list_all (fl_within (2 ^ 400)) ?data"
    using b unfolding list_all_iff .
  ultimately show ?thesis using w h(2) rounding_rnd_exact by blast
qed

theorem sax_raises_counterexample:
  "length ([] :: fl list) = 0 * 10
   \<and> sax rnd_exact ppf_quartiles [] 4 10 = Inl IndexError
   \<and> length [Num (2 ^ 1023), Num (2 ^ 1023)] = 1 * 2
   \<and> sax rnd_exact ppf_quartiles [Num (2 ^ 1023), Num (2 ^ 1023)] 4 2 = Inl IndexError
   \<and> length (map Num [-1, -1, -1, -1, -1, -1, -1, -1, -1, -1, -1, -1, -1, -1, -1, -1, 16])
       = 1 * 17
   \<and> sax rnd_exact ppf_coarse
       (map Num [-1, -1, -1, -1, -1, -1, -1, -1, -1, -1, -1, -1, -1, -1, -1, -1, 16]) 53 17
     = Inl IndexError"
proof -
  have 1: "sax rnd_exact ppf_quartiles [] 4 10 = Inl IndexError"
    by (rule sax_empty) simp_all
  have 2: "sax rnd_exact ppf_quartiles [Num (2 ^ 1023), Num (2 ^ 1023)] 4 2 = Inl IndexError"
    by (rule sax_overflow[of rnd_exact "2 ^ 1023", OF rnd_exact_overflow])
  show ?thesis using 1 2 sax_outlier by simp
qed

subsection \<open>The records of a scoring step\<close>

lemma scoring_step_Inr:
  assumes "scoring_step rnd ppf d = Inr (a, nf)"
  shows "\<exists>lw gw.
           get_words rnd ppf (lead_window d) (window_size d) (word_size d) = Inr lw
         \<and> get_words rnd ppf (lag_window d) (window_size d) (word_size d) = Inr gw
         \<and> py_max (dict_values (count_frequencies lw (alphabet d) (recursion_level d))
                    @ dict_values (count_frequencies gw (alphabet d) (recursion_level d)))
             = Inr nf
         \<and> build_bitmap (count_frequencies lw (alphabet d) (recursion_level d)) nf
             = Inr (bitmp1 a)
         \<and> build_bitmap (count_frequencies gw (alphabet d) (recursion_level d)) nf
             = Inr (bitmp2 a)
         \<and> score a = dist (bitmp1 a) (bitmp2 a)
                       / real (shape0 (bitmp1 a) * shape1 (bitmp1 a))"
proof (cases "get_words rnd ppf (lead_window d) (window_size d) (word_size d)")
  case (Inl e)
  then show ?thesis using assms by (simp add: scoring_step_def)
next
  case lw: (Inr lw)
  show ?thesis
  proof (cases "get_words rnd ppf (lag_window d) (window_size d) (word_size d)")
    case (Inl e)
    then show ?thesis using assms lw by (simp add: scoring_step_def)
  next
    case gw: (Inr gw)
    let ?lf = "count_frequencies lw (alphabet d) (recursion_level d)"
    let ?gf = "count_frequencies gw (alphabet d) (recursion_level d)"
    show ?thesis
    proof (cases "py_max (dict_values ?lf @ dict_values ?gf)")
      case (Inl e)
      then show ?thesis using assms lw gw by (simp add: scoring_step_def Let_def)
    next
      case m: (Inr m)
      show ?thesis
      proof (cases "build_bitmap ?lf m")
        case (Inl e)
        then show ?thesis using assms lw gw m by (simp add: scoring_step_def Let_def)
      next
        case b1: (Inr b1)
        show ?thesis
        proof (cases "build_bitmap ?gf m")
          case (Inl e)
          then show ?thesis using assms lw gw m b1 by (simp add: scoring_step_def Let_def)
        next
          case b2: (Inr b2)
          have "a = \<lparr> score = dist b1 b2 / real (shape0 b1 * shape1 b1),
                      bitmp1 = b1, bitmp2 = b2 \<rparr>" "nf = m"
            using assms lw gw m b1 b2 by (simp_all add: scoring_step_def Let_def)
          then show ?thesis using lw gw m b1 b2 by simp
        qed
      qed
    qed
  qed
qed

lemma sum_list_zip_nth:
  assumes "length xs = n" "length ys = n"
  shows "sum_list (map f (zip xs ys)) = (\<Sum>i<n. (f (xs ! i, ys ! i) :: real))"
proof -
  have "sum_list (map f (zip xs ys)) = (\<Sum>i = 0..<length (map f (zip xs ys)). map f (zip xs ys) ! i)"
    by (rule sum_list_sum_nth)
  also have "\<dots> = (\<Sum>i = 0..<n. f (xs ! i, ys ! i))"
    using assms by (intro sum.cong) simp_all
  finally show ?thesis by (simp add: atLeast0LessThan)
qed

lemma dist_square:
  assumes "length A = n" "length B = n"
    and "\<forall>r\<in>set A. length r = n" "\<forall>r\<in>set B. length r = n"
  shows "dist A B = (\<Sum>i<n. \<Sum>j<n. (A ! i ! j - B ! i ! j)\<^sup>2)"
proof -
  have "dist A B
        = (\<Sum>i<n. sum_list (map (\<lambda>(a, b). (a - b)\<^sup>2) (zip (A ! i) (B ! i))))"
    unfolding dist_def using sum_list_zip_nth[OF assms(1,2)] by simp
  also have "\<dots> = (\<Sum>i<n. \<Sum>j<n. (A ! i ! j - B ! i ! j)\<^sup>2)"
  proof (rule sum.cong[OF refl])
    fix i assume "i \<in> {..<n}"
    then have "length (A ! i) = n" "length (B ! i) = n"
      using assms by (auto dest: nth_mem)
    from sum_list_zip_nth[OF this, of "\<lambda>(a, b). (a - b)\<^sup>2"]
    show "sum_list (map (\<lambda>(a, b). (a - b)\<^sup>2) (zip (A ! i) (B ! i)))
          = (\<Sum>j<n. (A ! i ! j - B ! i ! j)\<^sup>2)"
      by simp
  qed
  finally show ?thesis .
qed

lemma dist_commute: "dist A B = dist B A"
proof -
  have row: "sum_list (map (\<lambda>(a, b). (a - b)\<^sup>2) (zip r s))
             = sum_list (map (\<lambda>(a, b). (a - b)\<^sup>2) (zip s r))" for r s :: "real list"
    by (induction r s rule: list_induct2') (simp_all add: power2_commute)
  have "sum_list (map (\<lambda>(r, s). sum_list (map (\<lambda>(a, b). (a - b)\<^sup>2) (zip r s))) (zip A B))
        = sum_list (map (\<lambda>(r, s). sum_list (map (\<lambda>(a, b). (a - b)\<^sup>2) (zip r s))) (zip B A))"
    by (induction A B rule: list_induct2') (simp_all add: row)
  then show ?thesis by (simp add: dist_def)
qed

lemma dist_nonneg: "0 \<le> dist A B"
  unfolding dist_def by (intro sum_list_nonneg) (auto intro!: sum_list_nonneg)

lemma dist_self: "dist A A = 0"
proof -
  have row: "sum_list (map (\<lambda>(a, b). (a - b)\<^sup>2) (zip r r)) = 0" for r :: "real list"
    by (induction r) simp_all
  have "sum_list (map (\<lambda>(r, s). sum_list (map (\<lambda>(a, b). (a - b)\<^sup>2) (zip r s))) (zip A A)) = 0"
    by (induction A) (simp_all add: row)
  then show ?thesis by (simp add: dist_def)
qed

lemma shape_square:
  assumes "length A = n" "\<forall>r\<in>set A. length r = n"
  shows "shape0 A * shape1 A = n * n"
proof (cases A)
  case Nil
  then show ?thesis using assms by (simp add: shape0_def shape1_def)
next
  case (Cons r rs)
  then show ?thesis using assms by (simp add: shape0_def shape1_def)
qed

lemma ordered_keys_count_frequencies:
  "Mapping.ordered_keys (count_frequencies ws alph n)
   = sorted_list_of_set (build_combinations alph n)"
  by (simp add: ordered_keys_def keys_count_frequencies finite_build_combinations)

lemma size_count_frequencies:
  "Mapping.size (count_frequencies ws alph n) = card (build_combinations alph n)"
  by (simp add: Mapping.size_def keys_count_frequencies finite_build_combinations)

lemma build_bitmap_Inr_square:
  assumes "build_bitmap fr nf = Inr bm"
  shows "\<exists>n. Mapping.size fr = n * n"
proof (rule ccontr)
  assume "\<not> (\<exists>n. Mapping.size fr = n * n)"
  then have "\<forall>n. n * n \<noteq> Mapping.size fr" by metis
  then have "build_bitmap fr nf = Inl ValueError" by (rule build_bitmap_not_square)
  then show False using assms by simp
qed

lemma py_max_Inr:
  assumes "py_max xs = Inr m"
  shows "xs \<noteq> [] \<and> m = Max (set xs)"
  using assms py_max_Max[of xs] by (cases xs) auto

text \<open>What a successful scoring step has computed.\<close>

lemma scoring_step_facts:
  assumes "scoring_step rnd ppf d = Inr (a, nf)"
  shows "\<exists>lw gw n.
           get_words rnd ppf (lead_window d) (window_size d) (word_size d) = Inr lw
         \<and> get_words rnd ppf (lag_window d) (window_size d) (word_size d) = Inr gw
         \<and> 0 < n \<and> card (build_combinations (alphabet d) (recursion_level d)) = n * n
         \<and> nf = Max (table_values (count_frequencies lw (alphabet d) (recursion_level d))
                      \<union> table_values (count_frequencies gw (alphabet d) (recursion_level d)))
         \<and> build_bitmap (count_frequencies lw (alphabet d) (recursion_level d)) nf
             = Inr (bitmp1 a)
         \<and> build_bitmap (count_frequencies gw (alphabet d) (recursion_level d)) nf
             = Inr (bitmp2 a)
         \<and> length (bitmp1 a) = n \<and> (\<forall>r\<in>set (bitmp1 a). length r = n)
         \<and> length (bitmp2 a) = n \<and> (\<forall>r\<in>set (bitmp2 a). length r = n)
         \<and> (\<forall>i<n. \<forall>j<n. bitmp1 a ! i ! j
               = spec_cell (count_frequencies lw (alphabet d) (recursion_level d)) nf
                   (sorted_list_of_set (build_combinations (alphabet d) (recursion_level d))
                      ! (i * n + j)))
         \<and> (\<forall>i<n. \<forall>j<n. bitmp2 a ! i ! j
               = spec_cell (count_frequencies gw (alphabet d) (recursion_level d)) nf
                   (sorted_list_of_set (build_combinations (alphabet d) (recursion_level d))
                      ! (i * n + j)))
         \<and> score a = dist (bitmp1 a) (bitmp2 a) / real (n * n)"
proof -
  let ?C = "build_combinations (alphabet d) (recursion_level d)"
  from scoring_step_Inr[OF assms] obtain lw gw where
    lw: "get_words rnd ppf (lead_window d) (window_size d) (word_size d) = Inr lw" and
    gw: "get_words rnd ppf (lag_window d) (window_size d) (word_size d) = Inr gw" and
    mx: "py_max (dict_values (count_frequencies lw (alphabet d) (recursion_level d))
                 @ dict_values (count_frequencies gw (alphabet d) (recursion_level d)))
         = Inr nf" and
    b1: "build_bitmap (count_frequencies lw (alphabet d) (recursion_level d)) nf
         = Inr (bitmp1 a)" and
    b2: "build_bitmap (count_frequencies gw (alphabet d) (recursion_level d)) nf
         = Inr (bitmp2 a)" and
    sc: "score a = dist (bitmp1 a) (bitmp2 a) / real (shape0 (bitmp1 a) * shape1 (bitmp1 a))"
    by blast
  let ?lf = "count_frequencies lw (alphabet d) (recursion_level d)"
  let ?gf = "count_frequencies gw (alphabet d) (recursion_level d)"
  obtain n where n: "card ?C = n * n"
    using build_bitmap_Inr_square[OF b1] by (auto simp: size_count_frequencies)
  have sl: "Mapping.size ?lf = n * n" and sg: "Mapping.size ?gf = n * n"
    using n by (simp_all add: size_count_frequencies)
  have fin: "finite (Mapping.keys ?lf)" "finite (Mapping.keys ?gf)"
    by (simp_all add: keys_count_frequencies finite_build_combinations)
  have vals: "set (dict_values ?lf @ dict_values ?gf) = table_values ?lf \<union> table_values ?gf"
    by (simp add: set_dict_values[OF fin(1)] set_dict_values[OF fin(2)] table_values_def)
  have ne: "dict_values ?lf @ dict_values ?gf \<noteq> []" and
    nf: "nf = Max (table_values ?lf \<union> table_values ?gf)"
    using py_max_Inr[OF mx] vals by simp_all
  have "n \<noteq> 0"
  proof
    assume "n = 0"
    then have "length (Mapping.ordered_keys ?lf) = 0" "length (Mapping.ordered_keys ?gf) = 0"
      using ordered_keys_of_size(1)[OF sl] ordered_keys_of_size(1)[OF sg] by simp_all
    then show False using ne by (simp add: dict_values_def)
  qed
  then have pos: "0 < n" by simp
  from build_bitmap_square[OF sl, of nf] b1
  have s1: "length (bitmp1 a) = n" "\<forall>r\<in>set (bitmp1 a). length r = n"
    "\<forall>i<n. \<forall>j<n. bitmp1 a ! i ! j = spec_cell ?lf nf (Mapping.ordered_keys ?lf ! (i * n + j))"
    by auto
  from build_bitmap_square[OF sg, of nf] b2
  have s2: "length (bitmp2 a) = n" "\<forall>r\<in>set (bitmp2 a). length r = n"
    "\<forall>i<n. \<forall>j<n. bitmp2 a ! i ! j = spec_cell ?gf nf (Mapping.ordered_keys ?gf ! (i * n + j))"
    by auto
  have sc': "score a = dist (bitmp1 a) (bitmp2 a) / real (n * n)"
    using sc shape_square[OF s1(1,2)] by simp
  show ?thesis
    using lw gw pos n nf b1 b2 s1 s2 sc'
    unfolding ordered_keys_count_frequencies by blast
qed

lemma detect_emitted:
  assumes "detect rnd ppf d xs = Inr (res, d')" "a \<in> set res"
  shows "\<exists>d2 nf. scoring_step rnd ppf d2 = Inr (a, nf)
           \<and> length (lead_window d2) = lead_maxlen d2
           \<and> length (lag_window d2) = lag_maxlen d2"
proof -
  have "detect_loop rnd ppf d xs [] = Inr (res, d')" using assms(1) by (simp add: detect_def)
  from detect_loop_emitted[OF this, of "\<lambda>_. True"] assms(2)
  show ?thesis by simp blast
qed

lemma count_value_nonneg:
  assumes "k \<in> build_combinations alph n"
  shows "0 \<le> the (Mapping.lookup (count_frequencies ws alph n) k)"
proof -
  have "0 \<le> (\<Sum>w\<leftarrow>ws. real (count_substr w k))"
    by (rule sum_list_nonneg) auto
  then show ?thesis using assms by (simp add: lookup_count_frequencies)
qed

lemma spec_cell_bounds:
  assumes "k \<in> build_combinations alph n"
    and "nf = Max (table_values (count_frequencies lw alph n)
                   \<union> table_values (count_frequencies gw alph n))"
  shows "0 \<le> spec_cell (count_frequencies lw alph n) nf k
       \<and> spec_cell (count_frequencies lw alph n) nf k \<le> 1
       \<and> 0 \<le> spec_cell (count_frequencies gw alph n) nf k
       \<and> spec_cell (count_frequencies gw alph n) nf k \<le> 1"
proof -
  let ?lf = "count_frequencies lw alph n" and ?gf = "count_frequencies gw alph n"
  let ?u = "the (Mapping.lookup ?lf k)" and ?v = "the (Mapping.lookup ?gf k)"
  have fin: "finite (table_values ?lf \<union> table_values ?gf)"
    by (simp add: table_values_def keys_count_frequencies finite_build_combinations)
  have "?u \<in> table_values ?lf \<union> table_values ?gf" "?v \<in> table_values ?lf \<union> table_values ?gf"
    using assms(1) by (simp_all add: table_values_def keys_count_frequencies)
  then have le: "?u \<le> nf" "?v \<le> nf"
    unfolding assms(2) using fin by (simp_all only: Max_ge)
  have ge: "0 \<le> ?u" "0 \<le> ?v"
    using assms(1) by (simp_all only: count_value_nonneg)
  show ?thesis
  proof (cases "nf = 0")
    case True
    then show ?thesis using le ge by (simp add: spec_cell_def)
  next
    case False
    then have "0 < nf" using le(1) ge(1) by simp
    then show ?thesis using le ge by (simp add: spec_cell_def)
  qed
qed

lemma nth_sorted_catalog:
  assumes "card (build_combinations alph m) = n * n" "i < n" "j < n"
  shows "sorted_list_of_set (build_combinations alph m) ! (i * n + j) \<in> build_combinations alph m"
proof -
  let ?ks = "sorted_list_of_set (build_combinations alph m)"
  have "i * n + j < i * n + n" using assms(3) by simp
  also have "\<dots> = Suc i * n" by simp
  also have "\<dots> \<le> n * n" using assms(2) by (simp only: mult_le_mono1 Suc_leI)
  finally have "i * n + j < length ?ks" using assms(1) by simp
  then have "?ks ! (i * n + j) \<in> set ?ks" by (rule nth_mem)
  then show ?thesis by (simp add: finite_build_combinations)
qed

text \<open>The cells of the two bitmaps of a successful scoring step lie between 0 and 1.\<close>

lemma scoring_step_cells:
  assumes "scoring_step rnd ppf d = Inr (a, nf)"
  shows "\<exists>n. 0 < n
           \<and> length (bitmp1 a) = n \<and> (\<forall>r\<in>set (bitmp1 a). length r = n)
           \<and> length (bitmp2 a) = n \<and> (\<forall>r\<in>set (bitmp2 a). length r = n)
           \<and> (\<forall>i<n. \<forall>j<n. 0 \<le> bitmp1 a ! i ! j \<and> bitmp1 a ! i ! j \<le> 1
                          \<and> 0 \<le> bitmp2 a ! i ! j \<and> bitmp2 a ! i ! j \<le> 1)
           \<and> score a = dist (bitmp1 a) (bitmp2 a) / real (n * n)"
proof -
  let ?C = "build_combinations (alphabet d) (recursion_level d)"
  from scoring_step_facts[OF assms] obtain lw gw n where f:
    "0 < n" "card ?C = n * n"
    "nf = Max (table_values (count_frequencies lw (alphabet d) (recursion_level d))
               \<union> table_values (count_frequencies gw (alphabet d) (recursion_level d)))"
    "length (bitmp1 a) = n" "\<forall>r\<in>set (bitmp1 a). length r = n"
    "length (bitmp2 a) = n" "\<forall>r\<in>set (bitmp2 a). length r = n"
    "\<forall>i<n. \<forall>j<n. bitmp1 a ! i ! j
       = spec_cell (count_frequencies lw (alphabet d) (recursion_level d)) nf
           (sorted_list_of_set ?C ! (i * n + j))"
    "\<forall>i<n. \<forall>j<n. bitmp2 a ! i ! j
       = spec_cell (count_frequencies gw (alphabet d) (recursion_level d)) nf
           (sorted_list_of_set ?C ! (i * n + j))"
    "score a = dist (bitmp1 a) (bitmp2 a) / real (n * n)"
    by blast
  have "0 \<le> bitmp1 a ! i ! j \<and> bitmp1 a ! i ! j \<le> 1
      \<and> 0 \<le> bitmp2 a ! i ! j \<and> bitmp2 a ! i ! j \<le> 1" if "i < n" "j < n" for i j
    using spec_cell_bounds[OF nth_sorted_catalog[OF f(2) that] f(3)] f(8,9) that by simp
  then show ?thesis using f(1,4,5,6,7,10) by blast
qed

lemma square_cells:
  assumes "length A = n" "\<forall>r\<in>set A. length r = n" "r \<in> set A" "c \<in> set r"
  shows "\<exists>i<n. \<exists>j<n. c = A ! i ! j"
proof -
  obtain i where i: "i < length A" "r = A ! i" using assms(3) by (metis in_set_conv_nth)
  obtain j where j: "j < length r" "c = r ! j" using assms(4) by (metis in_set_conv_nth)
  have "length r = n" using assms(2,3) by simp
  then show ?thesis using i j assms(1) by auto
qed

lemma mean_square_difference_le_1:
  assumes "\<forall>i<n. \<forall>j<n. 0 \<le> A ! i ! j \<and> A ! i ! j \<le> 1 \<and> 0 \<le> B ! i ! j \<and> B ! i ! j \<le> (1::real)"
  shows "(\<Sum>i<n. \<Sum>j<n. (A ! i ! j - B ! i ! j)\<^sup>2) / real (n * n) \<le> 1"
proof -
  have cell: "(A ! i ! j - B ! i ! j)\<^sup>2 \<le> 1" if "i < n" "j < n" for i j
  proof -
    have "\<bar>A ! i ! j - B ! i ! j\<bar> \<le> 1" using assms that by (simp add: abs_le_iff) force
    then show ?thesis by (simp add: abs_square_le_1)
  qed
  have "(\<Sum>i<n. \<Sum>j<n. (A ! i ! j - B ! i ! j)\<^sup>2) \<le> (\<Sum>i<n. \<Sum>j<n. 1)"
    by (intro sum_mono) (simp add: cell)
  also have "\<dots> = real (n * n)" by simp
  finally show ?thesis by (cases "n = 0") (simp_all add: divide_le_eq)
qed

subsection \<open>Claims on the emitted records\<close>

text \<open>A run that emits records, for the witnesses: \<open>universe_size\<close> is 6.\<close>

lemma example_run_count:
  "\<exists>res d'. detect rnd_exact ppf_quartiles (AssumptionFreeAA_init 2 1 1 2) (map Num xs)
              = Inr (res, d')
           \<and> length res = length xs - 5"
  if "\<forall>x\<in>set xs. \<bar>x\<bar> \<le> 64" for xs :: "real list"
proof -
  have p: "(0::nat) < 2" "(0::nat) < 1" "(0::nat) < 1" by simp_all
  have "(64::real) = 2 ^ 6" by simp
  also have "\<dots> \<le> 2 ^ 400" by (intro power_increasing) simp_all
  finally have "\<bar>x\<bar> \<le> 2 ^ 400" if "x \<in> set xs" for x
    using \<open>\<forall>x\<in>set xs. \<bar>x\<bar> \<le> 64\<close> that by force
  then have b: "\<forall>x\<in>set (map Num xs). fl_within (2 ^ 400) x"
    by (auto simp: fl_within_def)
  have "(1::nat) * 2 \<le> 2 ^ 53" by simp
  then have h: "length (map Num xs) < (1 + 2) * 1 * 2
         \<or> (rounding rnd_exact \<and> (1::nat) * 2 \<le> 2 ^ 53
            \<and> (\<forall>x\<in>set (map Num xs). fl_within (2 ^ 400) x))"
    using rounding_rnd_exact b by blast
  from detect_fresh_count[OF p h, of ppf_quartiles]
  show ?thesis by auto
qed

lemma example_run:
  "\<exists>res d' a. detect rnd_exact ppf_quartiles (AssumptionFreeAA_init 2 1 1 2)
                  (map Num [1, 2, 4, 8, 16, 32, 64])
                 = Inr (res, d')
             \<and> length res = 2 \<and> a \<in> set res"
proof -
  from example_run_count[of "[1, 2, 4, 8, 16, 32, 64]"]
  obtain res d' where r:
    "detect rnd_exact ppf_quartiles (AssumptionFreeAA_init 2 1 1 2)
       (map Num [1, 2, 4, 8, 16, 32, 64]) = Inr (res, d')"
    "length res = 2"
    by auto
  then have "hd res \<in> set res" by (cases res) simp_all
  then show ?thesis using r by blast
qed

text \<open>A run on \<open>xs @ [x]\<close> is the run on \<open>xs\<close> followed by the step for \<open>x\<close>.\<close>

lemma detect_snoc:
  assumes "detect rnd ppf d (xs @ [x]) = Inr (res, d')"
  shows "\<exists>res0 d0. detect rnd ppf d xs = Inr (res0, d0)
           \<and> (res = res0 \<and> detect_step rnd ppf d0 x = Inr (d', None)
              \<or> (\<exists>a. res = res0 @ [a] \<and> detect_step rnd ppf d0 x = Inr (d', Some a)))"
proof -
  have run: "(case detect_loop rnd ppf d xs [] of
                Inl e \<Rightarrow> Inl e
              | Inr (r, d2) \<Rightarrow> detect_loop rnd ppf d2 [x] r) = Inr (res, d')"
    using assms by (simp only: detect_def detect_loop_append)
  then obtain res0 d0 where r0: "detect_loop rnd ppf d xs [] = Inr (res0, d0)"
    by (cases "detect_loop rnd ppf d xs []") auto
  then have last: "detect_loop rnd ppf d0 [x] res0 = Inr (res, d')" using run by simp
  then obtain d1 r where st: "detect_step rnd ppf d0 x = Inr (d1, r)"
    by (cases "detect_step rnd ppf d0 x") auto
  have "res = res0 \<and> detect_step rnd ppf d0 x = Inr (d', None)
      \<or> (\<exists>a. res = res0 @ [a] \<and> detect_step rnd ppf d0 x = Inr (d', Some a))"
    using last st by (cases r) auto
  then show ?thesis using r0 by (simp add: detect_def)
qed

text \<open>
  Claim C2. At a scoring step, on whatever state, the normalization factor is the
  maximum over the union of the values of the lead table and the values of the lag
  table, the tables counted from the words of the two windows of that state, and both
  bitmaps of the record are built with this one factor. The scoring steps of \<open>detect\<close>
  are these: a run on \<open>xs @ [x]\<close> is the run on \<open>xs\<close> followed by the step for \<open>x\<close>,
  and when that step appends a record \<open>a\<close>, \<open>a\<close> is the record of the scoring step on
  the state \<open>d'\<close> the step leaves, whose windows are the windows scored.
\<close>

theorem norm_factor_common_max:
  shows "(scoring_step rnd ppf d2 = Inr (b, nf2) \<longrightarrow>
            (\<exists>lw gw.
                get_words rnd ppf (lead_window d2) (window_size d2) (word_size d2) = Inr lw
              \<and> get_words rnd ppf (lag_window d2) (window_size d2) (word_size d2) = Inr gw
              \<and> nf2 = Max (table_values (count_frequencies lw (alphabet d2) (recursion_level d2))
                           \<union> table_values (count_frequencies gw (alphabet d2) (recursion_level d2)))
              \<and> build_bitmap (count_frequencies lw (alphabet d2) (recursion_level d2)) nf2
                  = Inr (bitmp1 b)
              \<and> build_bitmap (count_frequencies gw (alphabet d2) (recursion_level d2)) nf2
                  = Inr (bitmp2 b)))
       \<and> (detect rnd ppf d (xs @ [x]) = Inr (res, d') \<longrightarrow>
            (\<exists>res0 d0. detect rnd ppf d xs = Inr (res0, d0)
               \<and> (res = res0 \<and> detect_step rnd ppf d0 x = Inr (d', None)
                  \<or> (\<exists>a lw gw nf.
                        res = res0 @ [a] \<and> detect_step rnd ppf d0 x = Inr (d', Some a)
                      \<and> scoring_step rnd ppf d' = Inr (a, nf)
                      \<and> get_words rnd ppf (lead_window d') (window_size d') (word_size d') = Inr lw
                      \<and> get_words rnd ppf (lag_window d') (window_size d') (word_size d') = Inr gw
                      \<and> nf = Max (table_values
                                    (count_frequencies lw (alphabet d') (recursion_level d'))
                                  \<union> table_values
                                    (count_frequencies gw (alphabet d') (recursion_level d')))
                      \<and> build_bitmap (count_frequencies lw (alphabet d') (recursion_level d')) nf
                          = Inr (bitmp1 a)
                      \<and> build_bitmap (count_frequencies gw (alphabet d') (recursion_level d')) nf
                          = Inr (bitmp2 a)))))"
proof (intro conjI impI)
  assume "scoring_step rnd ppf d2 = Inr (b, nf2)"
  from scoring_step_facts[OF this]
  show "\<exists>lw gw.
          get_words rnd ppf (lead_window d2) (window_size d2) (word_size d2) = Inr lw
        \<and> get_words rnd ppf (lag_window d2) (window_size d2) (word_size d2) = Inr gw
        \<and> nf2 = Max (table_values (count_frequencies lw (alphabet d2) (recursion_level d2))
                     \<union> table_values (count_frequencies gw (alphabet d2) (recursion_level d2)))
        \<and> build_bitmap (count_frequencies lw (alphabet d2) (recursion_level d2)) nf2
            = Inr (bitmp1 b)
        \<and> build_bitmap (count_frequencies gw (alphabet d2) (recursion_level d2)) nf2
            = Inr (bitmp2 b)"
    by blast
next
  assume run: "detect rnd ppf d (xs @ [x]) = Inr (res, d')"
  let ?R = "\<lambda>res0 d0 a lw gw nf.
              res = res0 @ [a] \<and> detect_step rnd ppf d0 x = Inr (d', Some a)
            \<and> scoring_step rnd ppf d' = Inr (a, nf)
            \<and> get_words rnd ppf (lead_window d') (window_size d') (word_size d') = Inr lw
            \<and> get_words rnd ppf (lag_window d') (window_size d') (word_size d') = Inr gw
            \<and> nf = Max (table_values (count_frequencies lw (alphabet d') (recursion_level d'))
                        \<union> table_values (count_frequencies gw (alphabet d') (recursion_level d')))
            \<and> build_bitmap (count_frequencies lw (alphabet d') (recursion_level d')) nf
                = Inr (bitmp1 a)
            \<and> build_bitmap (count_frequencies gw (alphabet d') (recursion_level d')) nf
                = Inr (bitmp2 a)"
  from detect_snoc[OF run] obtain res0 d0 where r0: "detect rnd ppf d xs = Inr (res0, d0)"
    and alt: "res = res0 \<and> detect_step rnd ppf d0 x = Inr (d', None)
              \<or> (\<exists>a. res = res0 @ [a] \<and> detect_step rnd ppf d0 x = Inr (d', Some a))"
    by blast
  have "res = res0 \<and> detect_step rnd ppf d0 x = Inr (d', None)
        \<or> (\<exists>a lw gw nf. ?R res0 d0 a lw gw nf)"
    using alt
  proof
    assume "res = res0 \<and> detect_step rnd ppf d0 x = Inr (d', None)"
    then show ?thesis by (rule disjI1)
  next
    assume "\<exists>a. res = res0 @ [a] \<and> detect_step rnd ppf d0 x = Inr (d', Some a)"
    then obtain a where a: "res = res0 @ [a]" "detect_step rnd ppf d0 x = Inr (d', Some a)"
      by blast
    from detect_step_Some[OF a(2)] obtain nf where s: "scoring_step rnd ppf d' = Inr (a, nf)"
      by blast
    from scoring_step_facts[OF s] obtain lw gw where
      "get_words rnd ppf (lead_window d') (window_size d') (word_size d') = Inr lw"
      "get_words rnd ppf (lag_window d') (window_size d') (word_size d') = Inr gw"
      "nf = Max (table_values (count_frequencies lw (alphabet d') (recursion_level d'))
                 \<union> table_values (count_frequencies gw (alphabet d') (recursion_level d')))"
      "build_bitmap (count_frequencies lw (alphabet d') (recursion_level d')) nf = Inr (bitmp1 a)"
      "build_bitmap (count_frequencies gw (alphabet d') (recursion_level d')) nf = Inr (bitmp2 a)"
      by blast
    then have "?R res0 d0 a lw gw nf" using a s by simp
    then have "\<exists>a lw gw nf. ?R res0 d0 a lw gw nf" by blast
    then show ?thesis by (rule disjI2)
  qed
  then have "detect rnd ppf d xs = Inr (res0, d0)
               \<and> (res = res0 \<and> detect_step rnd ppf d0 x = Inr (d', None)
                  \<or> (\<exists>a lw gw nf. ?R res0 d0 a lw gw nf))"
    using r0 by (rule conjI[rotated])
  then show "\<exists>res0 d0. detect rnd ppf d xs = Inr (res0, d0)
               \<and> (res = res0 \<and> detect_step rnd ppf d0 x = Inr (d', None)
                  \<or> (\<exists>a lw gw nf. ?R res0 d0 a lw gw nf))"
    by (intro exI)
qed

theorem norm_factor_common_max_witness:
  "\<exists>res d' a nf lw gw.
       detect rnd_exact ppf_quartiles (AssumptionFreeAA_init 2 1 1 2)
         (map Num [1, 2, 4, 8, 16, 32] @ [Num 64])
       = Inr (res, d')
     \<and> length res = 2 \<and> a = last res
     \<and> scoring_step rnd_exact ppf_quartiles d' = Inr (a, nf)
     \<and> get_words rnd_exact ppf_quartiles (lead_window d') (window_size d') (word_size d') = Inr lw
     \<and> get_words rnd_exact ppf_quartiles (lag_window d') (window_size d') (word_size d') = Inr gw
     \<and> nf = Max (table_values (count_frequencies lw (alphabet d') (recursion_level d'))
                 \<union> table_values (count_frequencies gw (alphabet d') (recursion_level d')))
     \<and> build_bitmap (count_frequencies lw (alphabet d') (recursion_level d')) nf = Inr (bitmp1 a)
     \<and> build_bitmap (count_frequencies gw (alphabet d') (recursion_level d')) nf = Inr (bitmp2 a)"
proof -
  let ?d = "AssumptionFreeAA_init 2 1 1 2"
  let ?xs = "map Num [1, 2, 4, 8, 16, 32]"
  from example_run_count[of "[1, 2, 4, 8, 16, 32, 64]"]
  obtain res d' where r: "detect rnd_exact ppf_quartiles ?d (?xs @ [Num 64]) = Inr (res, d')"
    "length res = 2"
    by auto
  from example_run_count[of "[1, 2, 4, 8, 16, 32]"]
  obtain r6 d6 where r6: "detect rnd_exact ppf_quartiles ?d ?xs = Inr (r6, d6)" "length r6 = 1"
    by auto
  from norm_factor_common_max[of rnd_exact ppf_quartiles _ _ _ ?d ?xs "Num 64" res d',
      THEN conjunct2, THEN mp, OF r(1)]
  obtain res0 d0 where r0: "detect rnd_exact ppf_quartiles ?d ?xs = Inr (res0, d0)"
    and alt: "res = res0 \<and> detect_step rnd_exact ppf_quartiles d0 (Num 64) = Inr (d', None)
       \<or> (\<exists>a lw gw nf.
             res = res0 @ [a] \<and> detect_step rnd_exact ppf_quartiles d0 (Num 64) = Inr (d', Some a)
           \<and> scoring_step rnd_exact ppf_quartiles d' = Inr (a, nf)
           \<and> get_words rnd_exact ppf_quartiles (lead_window d') (window_size d') (word_size d')
               = Inr lw
           \<and> get_words rnd_exact ppf_quartiles (lag_window d') (window_size d') (word_size d')
               = Inr gw
           \<and> nf = Max (table_values (count_frequencies lw (alphabet d') (recursion_level d'))
                       \<union> table_values (count_frequencies gw (alphabet d') (recursion_level d')))
           \<and> build_bitmap (count_frequencies lw (alphabet d') (recursion_level d')) nf
               = Inr (bitmp1 a)
           \<and> build_bitmap (count_frequencies gw (alphabet d') (recursion_level d')) nf
               = Inr (bitmp2 a))"
    by blast
  have "res0 = r6" using r0 r6(1) by simp
  then have "res \<noteq> res0" using r(2) r6(2) by auto
  then obtain a lw gw nf where w:
    "res = res0 @ [a]"
    "scoring_step rnd_exact ppf_quartiles d' = Inr (a, nf)"
    "get_words rnd_exact ppf_quartiles (lead_window d') (window_size d') (word_size d') = Inr lw"
    "get_words rnd_exact ppf_quartiles (lag_window d') (window_size d') (word_size d') = Inr gw"
    "nf = Max (table_values (count_frequencies lw (alphabet d') (recursion_level d'))
               \<union> table_values (count_frequencies gw (alphabet d') (recursion_level d')))"
    "build_bitmap (count_frequencies lw (alphabet d') (recursion_level d')) nf = Inr (bitmp1 a)"
    "build_bitmap (count_frequencies gw (alphabet d') (recursion_level d')) nf = Inr (bitmp2 a)"
    using alt by blast
  have "a = last res" using w(1) by simp
  then show ?thesis using r w(2-7) by blast
qed

text \<open>
  Claim C5. In every emitted record the two bitmaps are \<open>n\<close> by \<open>n\<close> for the same
  \<open>n > 0\<close>, and the score is the sum over all cells of the squared difference of the
  two bitmaps divided by \<open>n\<^sup>2\<close>; so it is non-negative, zero when the bitmaps are equal,
  and the same when the two bitmaps are swapped. The distance itself is symmetric,
  zero on equal arguments and non-negative for all matrices.
\<close>

theorem score_mean_squared_difference:
  assumes "detect rnd ppf d xs = Inr (res, d')" "a \<in> set res"
  shows "\<exists>n. 0 < n
           \<and> length (bitmp1 a) = n \<and> (\<forall>r\<in>set (bitmp1 a). length r = n)
           \<and> length (bitmp2 a) = n \<and> (\<forall>r\<in>set (bitmp2 a). length r = n)
           \<and> score a = spec_score n (bitmp1 a) (bitmp2 a)
           \<and> 0 \<le> score a
           \<and> (bitmp1 a = bitmp2 a \<longrightarrow> score a = 0)
           \<and> dist (bitmp2 a) (bitmp1 a) / real (shape0 (bitmp2 a) * shape1 (bitmp2 a)) = score a
           \<and> spec_score n (bitmp2 a) (bitmp1 a) = score a
           \<and> dist A B = dist B A \<and> dist A A = 0 \<and> 0 \<le> dist A B"
proof -
  from detect_emitted[OF assms] obtain d2 nf where s: "scoring_step rnd ppf d2 = Inr (a, nf)"
    by blast
  from scoring_step_cells[OF s] obtain n where n: "0 < n"
    "length (bitmp1 a) = n" "\<forall>r\<in>set (bitmp1 a). length r = n"
    "length (bitmp2 a) = n" "\<forall>r\<in>set (bitmp2 a). length r = n"
    "score a = dist (bitmp1 a) (bitmp2 a) / real (n * n)"
    by blast
  have 1: "score a = spec_score n (bitmp1 a) (bitmp2 a)"
    using n(6) dist_square[OF n(2,4,3,5)] by (simp add: spec_score_def)
  have 2: "0 \<le> score a"
    using n(6) dist_nonneg[of "bitmp1 a" "bitmp2 a"] by simp
  have 3: "bitmp1 a = bitmp2 a \<longrightarrow> score a = 0"
    using n(6) dist_self[of "bitmp1 a"] by auto
  have 4: "dist (bitmp2 a) (bitmp1 a) / real (shape0 (bitmp2 a) * shape1 (bitmp2 a)) = score a"
    using n(6) shape_square[OF n(4,5)] dist_commute[of "bitmp2 a" "bitmp1 a"] by simp
  have 5: "spec_score n (bitmp2 a) (bitmp1 a) = score a"
    using n(6) dist_square[OF n(4,2,5,3)] dist_commute[of "bitmp2 a" "bitmp1 a"]
    by (simp add: spec_score_def)
  show ?thesis
    using n(1,2,3,4,5) 1 2 3 4 5 dist_commute[of A B] dist_self[of A] dist_nonneg[of A B]
    by blast
qed

theorem score_mean_squared_difference_witness:
  "\<exists>res d' a. detect rnd_exact ppf_quartiles (AssumptionFreeAA_init 2 1 1 2) (map Num [1, 2, 4, 8, 16, 32, 64])
                 = Inr (res, d')
     \<and> a \<in> set res
     \<and> (\<exists>n. 0 < n \<and> length (bitmp1 a) = n \<and> length (bitmp2 a) = n
            \<and> score a = spec_score n (bitmp1 a) (bitmp2 a)
            \<and> 0 \<le> score a
            \<and> spec_score n (bitmp2 a) (bitmp1 a) = score a)"
proof -
  from example_run obtain res d' a where r:
    "detect rnd_exact ppf_quartiles (AssumptionFreeAA_init 2 1 1 2) (map Num [1, 2, 4, 8, 16, 32, 64]) = Inr (res, d')"
    "a \<in> set res"
    by blast
  from score_mean_squared_difference[OF r, of "[]" "[]"] show ?thesis using r by blast
qed

text \<open>
  Claim C9. In every emitted record each cell of both bitmaps lies in the closed
  interval from 0 to 1, and so does the score.
\<close>

theorem cells_and_score_in_unit_interval:
  assumes "detect rnd ppf d xs = Inr (res, d')" "a \<in> set res"
  shows "(\<forall>r\<in>set (bitmp1 a). \<forall>c\<in>set r. 0 \<le> c \<and> c \<le> 1)
       \<and> (\<forall>r\<in>set (bitmp2 a). \<forall>c\<in>set r. 0 \<le> c \<and> c \<le> 1)
       \<and> 0 \<le> score a \<and> score a \<le> 1"
proof -
  from detect_emitted[OF assms] obtain d2 nf where s: "scoring_step rnd ppf d2 = Inr (a, nf)"
    by blast
  from scoring_step_cells[OF s] obtain n where n: "0 < n"
    "length (bitmp1 a) = n" "\<forall>r\<in>set (bitmp1 a). length r = n"
    "length (bitmp2 a) = n" "\<forall>r\<in>set (bitmp2 a). length r = n"
    "\<forall>i<n. \<forall>j<n. 0 \<le> bitmp1 a ! i ! j \<and> bitmp1 a ! i ! j \<le> 1
                \<and> 0 \<le> bitmp2 a ! i ! j \<and> bitmp2 a ! i ! j \<le> 1"
    "score a = dist (bitmp1 a) (bitmp2 a) / real (n * n)"
    by blast
  have c1: "0 \<le> c \<and> c \<le> 1" if "r \<in> set (bitmp1 a)" "c \<in> set r" for r c
    using square_cells[OF n(2,3) that] n(6) by auto
  have c2: "0 \<le> c \<and> c \<le> 1" if "r \<in> set (bitmp2 a)" "c \<in> set r" for r c
    using square_cells[OF n(4,5) that] n(6) by auto
  have "score a = (\<Sum>i<n. \<Sum>j<n. (bitmp1 a ! i ! j - bitmp2 a ! i ! j)\<^sup>2) / real (n * n)"
    using n(7) dist_square[OF n(2,4,3,5)] by simp
  then have "score a \<le> 1"
    using mean_square_difference_le_1[OF n(6)] by simp
  moreover have "0 \<le> score a"
    using n(7) dist_nonneg[of "bitmp1 a" "bitmp2 a"] by simp
  ultimately show ?thesis using c1 c2 by blast
qed

theorem cells_and_score_in_unit_interval_witness:
  "\<exists>res d' a. detect rnd_exact ppf_quartiles (AssumptionFreeAA_init 2 1 1 2) (map Num [1, 2, 4, 8, 16, 32, 64])
                 = Inr (res, d')
     \<and> a \<in> set res
     \<and> list_all (list_all (\<lambda>c. 0 \<le> c \<and> c \<le> 1)) (bitmp1 a)
     \<and> list_all (list_all (\<lambda>c. 0 \<le> c \<and> c \<le> 1)) (bitmp2 a)
     \<and> 0 \<le> score a \<and> score a \<le> 1"
proof -
  from example_run obtain res d' a where r:
    "detect rnd_exact ppf_quartiles (AssumptionFreeAA_init 2 1 1 2) (map Num [1, 2, 4, 8, 16, 32, 64]) = Inr (res, d')"
    "a \<in> set res"
    by blast
  from cells_and_score_in_unit_interval[OF r] show ?thesis
    using r unfolding list_all_iff by blast
qed

subsection \<open>A constant series\<close>

text \<open>
  A window of \<open>m\<close> datapoints equal to a whole number \<open>c\<close> with \<open>m * c \<le> 2\<^sup>5\<^sup>3\<close>: every
  partial sum is a whole number of at most \<open>2\<^sup>5\<^sup>3\<close>, which no rounding changes; so the
  mean is \<open>c\<close>, the centred data are zero and so is their standard deviation.
\<close>

lemma rounding_nat:
  assumes "rounding rnd" "K \<le> 2 ^ 53"
  shows "rnd (real K) = Num (real K)"
  using rounding_nat_pow(1)[OF assms, of 0] by simp

lemma foldl_fadd_const:
  assumes "rounding rnd"
  shows "(k + n) * c \<le> 2 ^ 53
         \<Longrightarrow> foldl (fadd rnd) (Num (real (k * c))) (replicate n (Num (real c)))
             = Num (real ((k + n) * c))"
proof (induction n arbitrary: k)
  case 0
  then show ?case by simp
next
  case (Suc n)
  have le: "Suc k * c \<le> (k + Suc n) * c" by (intro mult_le_mono1) simp
  then have "Suc k * c \<le> 2 ^ 53" using Suc.prems by linarith
  then have "rnd (real (Suc k * c)) = Num (real (Suc k * c))"
    by (rule rounding_nat[OF assms])
  moreover have "real (k * c) + real c = real (Suc k * c)" by (simp add: algebra_simps)
  ultimately have "fadd rnd (Num (real (k * c))) (Num (real c)) = Num (real (Suc k * c))"
    by (simp only: fadd.simps)
  moreover have "foldl (fadd rnd) (Num (real (Suc k * c))) (replicate n (Num (real c)))
                 = Num (real ((Suc k + n) * c))"
    using Suc.prems by (intro Suc.IH) simp
  ultimately show ?case by simp
qed

lemma np_sum_const:
  assumes "rounding rnd" "m * c \<le> 2 ^ 53"
  shows "np_sum rnd (replicate m (Num (real c))) = Num (real (m * c))"
proof (cases m)
  case 0
  then show ?thesis by simp
next
  case (Suc n)
  have "foldl (fadd rnd) (Num (real (1 * c))) (replicate n (Num (real c)))
        = Num (real ((1 + n) * c))"
    using assms(2) Suc by (intro foldl_fadd_const[OF assms(1)]) simp
  then show ?thesis using Suc by simp
qed

lemma np_mean_const:
  assumes "rounding rnd" "0 < m" "m * c \<le> 2 ^ 53"
  shows "np_mean rnd (replicate m (Num (real c))) = Num (real c)"
proof -
  have "c \<le> m * c" using assms(2) by simp
  then have "c \<le> 2 ^ 53" using assms(3) by linarith
  then have "rnd (real c) = Num (real c)" by (rule rounding_nat[OF assms(1)])
  moreover have "real (m * c) / real m = real c" using assms(2) by simp
  ultimately show ?thesis
    using assms(2) by (simp add: np_mean_def np_sum_const[OF assms(1,3)])
qed

lemma np_mean_zeros:
  assumes "rounding rnd" "0 < m"
  shows "np_mean rnd (replicate m (Num 0)) = Num 0"
  using np_mean_const[OF assms, of 0] by simp

lemma np_std_zeros:
  assumes "rounding rnd" "0 < m"
  shows "np_std rnd (replicate m (Num 0)) = Num 0"
proof -
  have z: "rnd 0 = Num 0" by (rule rounding_zero[OF assms(1)])
  have e1: "fsub rnd (Num 0) (Num 0) = Num 0" by (simp add: fsub_def z)
  have e2: "fmul rnd (Num 0) (Num 0) = Num 0" by (simp add: z)
  have d: "fdiv rnd (np_sum rnd (replicate m (Num 0))) (Num (real m)) = Num 0"
    using np_mean_zeros[OF assms] by (simp only: np_mean_def length_replicate)
  show ?thesis
    by (simp add: np_std_def Let_def np_mean_zeros[OF assms] e1 e2 d z)
qed

lemma scale_data_replicate:
  assumes "rounding rnd" "0 < m" "m * c \<le> 2 ^ 53"
  shows "scale_data rnd (replicate m (Num (real c))) = replicate m (Num 0)"
proof -
  have z: "rnd 0 = Num 0" by (rule rounding_zero[OF assms(1)])
  have e: "fsub rnd (Num (real c)) (Num (real c)) = Num 0" by (simp add: fsub_def z)
  show ?thesis
    by (simp add: scale_data_def Let_def np_mean_const[OF assms] e np_std_zeros[OF assms(1,2)])
qed

lemma split_sizes_const:
  "split_sizes (replicate n k) (replicate (n * k) x) = replicate n (replicate k x)"
proof (induction n)
  case 0
  then show ?case by simp
next
  case (Suc n)
  have "take k (replicate (k + n * k) x) = replicate k x" by simp
  moreover have "drop k (replicate (k + n * k) x) = replicate (n * k) x" by simp
  ultimately show ?case using Suc by simp
qed

lemma array_split_const:
  assumes "0 < n"
  shows "array_split (replicate (k * n) x) n = replicate n (replicate k x)"
  using assms split_sizes_const[of n k x] by (simp add: array_split_def mult.commute)

lemma map_err_replicate:
  assumes "f x = Inr y"
  shows "map_err f (replicate n x) = Inr (replicate n y)"
  by (induction n) (simp_all add: assms)

lemma map_err_const:
  assumes "\<forall>x\<in>set xs. f x = Inr y"
  shows "map_err f xs = Inr (replicate (length xs) y)"
  using map_err_map[of xs f "\<lambda>_. y"] assms by (simp add: map_replicate_const)

text \<open>
  The zero-standard-deviation branch: a constant segment is discretized to one letter
  repeated, the letter of the first breakpoint greater than 0.
\<close>

lemma sax_const:
  assumes "section_location (sax_breakpoints ppf 4) (Num 0) = Inr i" "letter_at i = Inr ch"
    and "0 < ws" "0 < wfac" "rounding rnd" "wfac * ws * c \<le> 2 ^ 53"
  shows "sax rnd ppf (replicate (wfac * ws) (Num (real c))) 4 ws = Inr (replicate ws ch)"
proof -
  have pos: "0 < wfac * ws" using assms(3,4) by simp
  have sc: "scale_data rnd (replicate (wfac * ws) (Num (real c))) = replicate (wfac * ws) (Num 0)"
    by (rule scale_data_replicate[OF assms(5) pos assms(6)])
  have "map (np_mean rnd) (array_split (replicate (wfac * ws) (Num 0)) ws)
        = replicate ws (Num 0)"
    using assms(3) by (simp add: array_split_const np_mean_zeros[OF assms(5,4)])
  then show ?thesis
    using assms(1,2,3)
    by (simp add: sax_def Let_def sc map_err_replicate)
qed

lemma const_letter:
  "\<exists>i ch. section_location (sax_breakpoints ppf 4) (Num 0) = Inr i \<and> letter_at i = Inr ch
          \<and> ch \<in> set ''abcd''"
proof -
  have a: "(0::nat) < 4" by simp
  have bps: "0 < length (sax_breakpoints ppf 4)"
    "sax_breakpoints ppf 4 ! (length (sax_breakpoints ppf 4) - 1) = PInf"
    "length (sax_breakpoints ppf 4) = 4"
    using sax_breakpoints_shape[OF a, of ppf] by simp_all
  from section_location_ok[OF bps(1,2), of "Num 0"] obtain i where
    i: "section_location (sax_breakpoints ppf 4) (Num 0) = Inr i" "i < 4"
    using bps(3) by auto
  from letter_at_ok[OF i(2), of ] obtain ch where "letter_at i = Inr ch"
    "ch \<in> set (take 4 ascii_letters)"
    by auto
  then show ?thesis using i(1) by (auto simp: take4_ascii_letters)
qed

lemma get_words_const:
  assumes "section_location (sax_breakpoints ppf 4) (Num 0) = Inr i" "letter_at i = Inr ch"
    and "0 < ws" "0 < wfac" "rounding rnd" "wfac * ws * c \<le> 2 ^ 53"
  shows "get_words rnd ppf (replicate (m * (wfac * ws)) (Num (real c))) (wfac * ws) ws
         = Inr (replicate m (replicate ws ch))"
proof -
  let ?W = "wfac * ws"
  let ?v = "Num (real c)"
  have W: "0 < ?W" using assms(3,4) by simp
  have "\<forall>j\<in>set [0..<m].
          sax rnd ppf (take ?W (drop (j * ?W) (replicate (m * ?W) ?v))) 4 ws
          = Inr (replicate ws ch)"
  proof
    fix j assume "j \<in> set [0..<m]"
    then have "Suc j \<le> m" by simp
    then have "Suc j * ?W \<le> m * ?W" by (rule mult_le_mono1)
    then have "?W \<le> m * ?W - j * ?W" by simp
    then have "take ?W (drop (j * ?W) (replicate (m * ?W) ?v)) = replicate ?W ?v"
      by (simp add: min_def)
    then show "sax rnd ppf (take ?W (drop (j * ?W) (replicate (m * ?W) ?v))) 4 ws
               = Inr (replicate ws ch)"
      using sax_const[OF assms] by simp
  qed
  from map_err_const[OF this] show ?thesis
    using W by (simp add: get_words_def)
qed

lemma count_substr_const:
  assumes "length k = 2"
  shows "count_substr (replicate ws ch) k = (if k = [ch, ch] then ws - 1 else 0)"
proof -
  have slice: "take 2 (drop j (replicate ws ch)) = [ch, ch]" if "j < ws - 1" for j
  proof -
    have "min 2 (ws - j) = 2" using that by simp
    then show ?thesis by (simp add: numeral_2_eq_2)
  qed
  have "filter (\<lambda>j. take 2 (drop j (replicate ws ch)) = k) [0..<ws - 1]
        = (if k = [ch, ch] then [0..<ws - 1] else [])"
    using slice by (auto simp: filter_empty_conv filter_id_conv)
  then show ?thesis
    using assms by (simp add: count_substr_def)
qed

lemma catalog_key_length: "k \<in> build_combinations alph 2 \<Longrightarrow> length k = 2"
  by (auto simp: build_combinations_two)

lemma const_table_value:
  assumes "k \<in> build_combinations alph 2"
  shows "the (Mapping.lookup (count_frequencies (replicate m (replicate ws ch)) alph 2) k)
         = (if k = [ch, ch] then real m * real (ws - 1) else 0)"
  using assms
  by (simp add: lookup_count_frequencies count_substr_const[OF catalog_key_length[OF assms]]
      sum_list_replicate)

lemma const_table_values:
  assumes "[ch, ch] \<in> build_combinations alph 2"
  shows "real m * real (ws - 1)
           \<in> table_values (count_frequencies (replicate m (replicate ws ch)) alph 2)"
    and "table_values (count_frequencies (replicate m (replicate ws ch)) alph 2)
           \<subseteq> {0, real m * real (ws - 1)}"
proof -
  let ?fr = "count_frequencies (replicate m (replicate ws ch)) alph 2"
  have "the (Mapping.lookup ?fr [ch, ch]) = real m * real (ws - 1)"
    using const_table_value[OF assms] by simp
  then show "real m * real (ws - 1) \<in> table_values ?fr"
    using assms unfolding table_values_def keys_count_frequencies by (metis imageI)
  show "table_values ?fr \<subseteq> {0, real m * real (ws - 1)}"
    unfolding table_values_def keys_count_frequencies
    using const_table_value[of _ alph m ws ch] by auto
qed

lemma const_norm_factor:
  assumes "[ch, ch] \<in> build_combinations alph 2"
  shows "Max (table_values (count_frequencies (replicate lf (replicate ws ch)) alph 2)
              \<union> table_values (count_frequencies (replicate lgf (replicate ws ch)) alph 2))
         = real (max lf lgf) * real (ws - 1)"
proof (rule Max_eqI)
  let ?A = "table_values (count_frequencies (replicate lf (replicate ws ch)) alph 2)"
  let ?B = "table_values (count_frequencies (replicate lgf (replicate ws ch)) alph 2)"
  show "finite (?A \<union> ?B)"
    by (simp add: table_values_def keys_count_frequencies finite_build_combinations)
  have m: "real (max lf lgf) * real (ws - 1)
           = max (real lf * real (ws - 1)) (real lgf * real (ws - 1))"
  proof (cases "lf \<le> lgf")
    case True
    then have "real lf * real (ws - 1) \<le> real lgf * real (ws - 1)"
      by (intro mult_right_mono) simp_all
    then show ?thesis using True by (simp add: max_def)
  next
    case False
    then have "real lgf * real (ws - 1) \<le> real lf * real (ws - 1)"
      by (intro mult_right_mono) simp_all
    then show ?thesis using False by (simp add: max_def)
  qed
  show "y \<le> real (max lf lgf) * real (ws - 1)" if "y \<in> ?A \<union> ?B" for y
  proof -
    have "y \<in> {0, real lf * real (ws - 1), real lgf * real (ws - 1)}"
      using that const_table_values(2)[OF assms, of lf ws] const_table_values(2)[OF assms, of lgf ws]
      by auto
    moreover have "0 \<le> real lf * real (ws - 1)" by simp
    ultimately show ?thesis unfolding m by (auto simp: le_max_iff_disj)
  qed
  show "real (max lf lgf) * real (ws - 1) \<in> ?A \<union> ?B"
    using const_table_values(1)[OF assms, of lf ws] const_table_values(1)[OF assms, of lgf ws]
    by (auto simp: max_def)
qed

lemma sum_row_major:
  fixes h :: "nat \<Rightarrow> real"
  shows "(\<Sum>i<n. \<Sum>j<n. h (i * n + j)) = (\<Sum>p<n * n. h p)"
proof -
  have "(\<Sum>j<n. h (i * n + j)) = sum h {i * n..<i * n + n}" for i
  proof -
    have "sum h {0 + i * n..<n + i * n} = (\<Sum>j = 0..<n. h (j + i * n))"
      by (rule sum.shift_bounds_nat_ivl)
    then show ?thesis by (simp add: atLeast0LessThan add.commute)
  qed
  then have "(\<Sum>i<n. \<Sum>j<n. h (i * n + j)) = (\<Sum>i<n. sum h {i * n..<i * n + n})"
    by simp
  also have "\<dots> = sum h {..<n * n}" by (rule sum.nat_group)
  finally show ?thesis .
qed

lemma sum_over_sorted_keys:
  fixes g :: "'a::linorder \<Rightarrow> real"
  assumes "finite K"
  shows "(\<Sum>p<card K. g (sorted_list_of_set K ! p)) = (\<Sum>k\<in>K. g k)"
proof -
  let ?ks = "sorted_list_of_set K"
  have len: "length ?ks = card K" by simp
  have "(\<Sum>k\<in>K. g k) = (\<Sum>k\<in>set ?ks. g k)" using assms by simp
  also have "\<dots> = sum_list (map g ?ks)"
    by (rule sum_list_distinct_conv_sum_set[symmetric]) simp
  also have "\<dots> = (\<Sum>p = 0..<length (map g ?ks). map g ?ks ! p)"
    by (rule sum_list_sum_nth)
  also have "\<dots> = (\<Sum>p<card K. g (?ks ! p))"
    by (simp add: atLeast0LessThan del: sorted_list_of_set.length_sorted_key_list_of_set)
       (simp add: len)
  finally show ?thesis by simp
qed

text \<open>
  The distance of the two bitmaps of a scoring step is a sum over the catalog's keys:
  the order in which the keys are laid out does not matter to it.
\<close>

lemma dist_over_keys:
  assumes "finite K" "card K = n * n"
    and "length A = n" "\<forall>r\<in>set A. length r = n"
    and "length B = n" "\<forall>r\<in>set B. length r = n"
    and "\<forall>i<n. \<forall>j<n. A ! i ! j = f (sorted_list_of_set K ! (i * n + j))"
    and "\<forall>i<n. \<forall>j<n. B ! i ! j = g (sorted_list_of_set K ! (i * n + j))"
  shows "dist A B = (\<Sum>k\<in>K. (f k - g k)\<^sup>2)"
proof -
  let ?ks = "sorted_list_of_set K"
  have "dist A B = (\<Sum>i<n. \<Sum>j<n. (A ! i ! j - B ! i ! j)\<^sup>2)"
    by (rule dist_square[OF assms(3,5,4,6)])
  also have "\<dots> = (\<Sum>i<n. \<Sum>j<n. (f (?ks ! (i * n + j)) - g (?ks ! (i * n + j)))\<^sup>2)"
    using assms(7,8) by simp
  also have "\<dots> = (\<Sum>p<n * n. (f (?ks ! p) - g (?ks ! p))\<^sup>2)"
    by (rule sum_row_major)
  also have "\<dots> = (\<Sum>k\<in>K. (f k - g k)\<^sup>2)"
    using sum_over_sorted_keys[OF assms(1), of "\<lambda>k. (f k - g k)\<^sup>2"] assms(2) by simp
  finally show ?thesis .
qed

lemma square_root_unique:
  fixes n m :: nat
  assumes "n * n = m * m"
  shows "n = m"
proof (rule ccontr)
  assume "n \<noteq> m"
  then consider "n < m" | "m < n" by linarith
  then show False
  proof cases
    case 1
    then have "n * n < m * m" by (simp add: mult_strict_mono)
    then show False using assms by simp
  next
    case 2
    then have "m * m < n * n" by (simp add: mult_strict_mono)
    then show False using assms by simp
  qed
qed

lemma card_catalog_abcd: "card (build_combinations ''abcd'' 2) = 4 * 4"
proof -
  have "card (build_combinations ''abcd'' 2) = (card (set ''abcd''))\<^sup>2"
    by (rule card_build_combinations_two)
  also have "card (set ''abcd'') = 4" by simp
  finally show ?thesis by (simp add: power2_eq_square)
qed

text \<open>
  The score of a scoring step on two constant windows of \<open>lf\<close> and \<open>lgf\<close>
  sub-windows: one cell, the doubled letter's, differs.
\<close>

lemma const_score:
  assumes "0 < word_size d" "window_size d = wfac * word_size d" "0 < wfac"
    and "alphabet d = ''abcd''" "recursion_level d = 2"
    and "lead_window d = replicate (lf * window_size d) (Num (real c))"
    and "lag_window d = replicate (lgf * window_size d) (Num (real c))"
    and "scoring_step rnd ppf d = Inr (a, nf)"
    and "rounding rnd" "window_size d * c \<le> 2 ^ 53"
  shows "score a = (if word_size d = 1 then 0
                    else ((real lf - real lgf) / real (max lf lgf))\<^sup>2 / 16)"
proof -
  let ?ws = "word_size d"
  let ?C = "build_combinations ''abcd'' 2"
  obtain i ch where ch: "section_location (sax_breakpoints ppf 4) (Num 0) = Inr i"
    "letter_at i = Inr ch" "ch \<in> set ''abcd''"
    using const_letter by blast
  have W: "wfac * ?ws * c \<le> 2 ^ 53" using assms(2,10) by simp
  let ?w0 = "replicate ?ws ch"
  let ?lf = "count_frequencies (replicate lf ?w0) ''abcd'' 2"
  let ?gf = "count_frequencies (replicate lgf ?w0) ''abcd'' 2"
  have lw: "get_words rnd ppf (lead_window d) (window_size d) ?ws = Inr (replicate lf ?w0)"
    using get_words_const[OF ch(1,2) assms(1,3,9) W, of lf] assms(2,6) by simp
  have gw: "get_words rnd ppf (lag_window d) (window_size d) ?ws = Inr (replicate lgf ?w0)"
    using get_words_const[OF ch(1,2) assms(1,3,9) W, of lgf] assms(2,7) by simp
  from scoring_step_facts[OF assms(8)] lw gw assms(4,5)
  obtain n where f: "0 < n" "card ?C = n * n"
    "nf = Max (table_values ?lf \<union> table_values ?gf)"
    "length (bitmp1 a) = n" "\<forall>r\<in>set (bitmp1 a). length r = n"
    "length (bitmp2 a) = n" "\<forall>r\<in>set (bitmp2 a). length r = n"
    "\<forall>i<n. \<forall>j<n. bitmp1 a ! i ! j = spec_cell ?lf nf (sorted_list_of_set ?C ! (i * n + j))"
    "\<forall>i<n. \<forall>j<n. bitmp2 a ! i ! j = spec_cell ?gf nf (sorted_list_of_set ?C ! (i * n + j))"
    "score a = dist (bitmp1 a) (bitmp2 a) / real (n * n)"
    by auto
  have n4: "n = 4" using f(2) card_catalog_abcd square_root_unique[of n 4] by simp
  have kk: "[ch, ch] \<in> ?C" using ch(3) by (auto simp: build_combinations_two image_iff)
  have nf: "nf = real (max lf lgf) * real (?ws - 1)"
    using f(3) const_norm_factor[OF kk, of lf ?ws lgf] by simp
  have cell1: "spec_cell ?lf nf k
               = (if k = [ch, ch] then spec_cell ?lf nf [ch, ch] else 0)" if "k \<in> ?C" for k
    using const_table_value[OF that, of lf ?ws ch] by (simp add: spec_cell_def)
  have cell2: "spec_cell ?gf nf k
               = (if k = [ch, ch] then spec_cell ?gf nf [ch, ch] else 0)" if "k \<in> ?C" for k
    using const_table_value[OF that, of lgf ?ws ch] by (simp add: spec_cell_def)
  have "dist (bitmp1 a) (bitmp2 a) = (\<Sum>k\<in>?C. (spec_cell ?lf nf k - spec_cell ?gf nf k)\<^sup>2)"
    by (rule dist_over_keys[OF finite_build_combinations f(2,4,5,6,7,8,9)])
  also have "\<dots> = (\<Sum>k\<in>?C. if k = [ch, ch]
                          then (spec_cell ?lf nf [ch, ch] - spec_cell ?gf nf [ch, ch])\<^sup>2 else 0)"
    by (rule sum.cong[OF refl]) (simp add: cell1 cell2)
  also have "\<dots> = (spec_cell ?lf nf [ch, ch] - spec_cell ?gf nf [ch, ch])\<^sup>2"
    using kk by (simp add: finite_build_combinations)
  finally have d: "dist (bitmp1 a) (bitmp2 a)
                   = (spec_cell ?lf nf [ch, ch] - spec_cell ?gf nf [ch, ch])\<^sup>2" .
  have v1: "the (Mapping.lookup ?lf [ch, ch]) = real lf * real (?ws - 1)"
    using const_table_value[OF kk, of lf ?ws ch] by simp
  have v2: "the (Mapping.lookup ?gf [ch, ch]) = real lgf * real (?ws - 1)"
    using const_table_value[OF kk, of lgf ?ws ch] by simp
  show ?thesis
  proof (cases "?ws = 1")
    case True
    then have "nf = 0" using nf by simp
    then have "spec_cell ?lf nf [ch, ch] = 0" "spec_cell ?gf nf [ch, ch] = 0"
      using v1 v2 True by (simp_all add: spec_cell_def)
    then show ?thesis using f(10) d True by simp
  next
    case False
    then have w: "0 < real (?ws - 1)" using assms(1) by simp
    show ?thesis
    proof (cases "max lf lgf = 0")
      case True
      then have "lf = 0" "lgf = 0" by simp_all
      then have "spec_cell ?lf nf [ch, ch] = 0" "spec_cell ?gf nf [ch, ch] = 0"
        using v1 v2 by (simp_all add: spec_cell_def)
      then show ?thesis using f(10) d False \<open>lf = 0\<close> \<open>lgf = 0\<close> by simp
    next
      case nz: False
      then have "nf \<noteq> 0" using nf w by simp
      then have "spec_cell ?lf nf [ch, ch] = real lf / real (max lf lgf)"
        "spec_cell ?gf nf [ch, ch] = real lgf / real (max lf lgf)"
        using v1 v2 nf w by (simp_all add: spec_cell_def)
      then have "dist (bitmp1 a) (bitmp2 a) = ((real lf - real lgf) / real (max lf lgf))\<^sup>2"
        using d by (simp add: diff_divide_distrib)
      then show ?thesis using f(10) n4 False by simp
    qed
  qed
qed

text \<open>
  While a constant series is fed, both windows hold only that constant, and the
  configuration does not change.
\<close>

lemma detect_step_const_invariant:
  assumes cfg: "0 < ws" "0 < wfac" "0 < lf"
    and inv: "word_size d = ws \<and> window_size d = wfac * ws \<and> alphabet d = ''abcd''
        \<and> recursion_level d = 2
        \<and> lead_maxlen d = lf * (wfac * ws) \<and> lag_maxlen d = lgf * (wfac * ws)
        \<and> length (lead_window d) \<le> lead_maxlen d
        \<and> set (lead_window d) \<subseteq> {c} \<and> set (lag_window d) \<subseteq> {c}"
    and step: "detect_step rnd ppf d c = Inr (d', r)"
  shows "word_size d' = ws \<and> window_size d' = wfac * ws \<and> alphabet d' = ''abcd''
        \<and> recursion_level d' = 2
        \<and> lead_maxlen d' = lf * (wfac * ws) \<and> lag_maxlen d' = lgf * (wfac * ws)
        \<and> length (lead_window d') \<le> lead_maxlen d'
        \<and> set (lead_window d') \<subseteq> {c} \<and> set (lag_window d') \<subseteq> {c}"
proof -
  let ?L = "lead_maxlen d" and ?l = "length (lead_window d)"
  have L: "0 < ?L" using cfg inv by simp
  have le: "?l \<le> ?L" using inv by simp
  from detect_step_unfold[OF L le, where x = c and rnd = rnd and ppf = ppf]
  obtain d2 where d2:
    "lead_window d2 = (if ?l = ?L then tl (lead_window d) else lead_window d) @ [c]"
    "lag_window d2 = (if ?l = ?L
                      then deque_append (lag_maxlen d) (lag_window d) (hd (lead_window d))
                      else lag_window d)"
    "word_size d2 = word_size d" "window_size d2 = window_size d"
    "lead_maxlen d2 = ?L" "lag_maxlen d2 = lag_maxlen d"
    "recursion_level d2 = recursion_level d" "alphabet d2 = alphabet d"
    and eq: "detect_step rnd ppf d c
               = (if length (lead_window d2) = lead_maxlen d2
                     \<and> length (lag_window d2) = lag_maxlen d2
                  then (case scoring_step rnd ppf d2 of
                          Inl e \<Rightarrow> Inl e
                        | Inr (result, norm_factor) \<Rightarrow> Inr (d2, Some result))
                  else Inr (d2, None))"
    by blast
  have "d' = d2"
    using step eq by (auto split: if_splits sum.splits)
  have tl: "set (tl (lead_window d)) \<subseteq> {c}"
    using inv by (cases "lead_window d") auto
  have lead: "set (lead_window d2) \<subseteq> {c}"
    using d2(1) inv tl by auto
  have len: "length (lead_window d2) \<le> ?L"
    using d2(1) le L by auto
  have lag: "set (lag_window d2) \<subseteq> {c}"
  proof (cases "?l = ?L")
    case True
    then have "lead_window d \<noteq> []" using L by auto
    then have "hd (lead_window d) = c" using inv by (cases "lead_window d") auto
    then show ?thesis
      using True d2(2) inv set_deque_append[of "lag_maxlen d" "lag_window d" c] by auto
  next
    case False
    then show ?thesis using d2(2) inv by simp
  qed
  show ?thesis
    unfolding \<open>d' = d2\<close> using d2(3-8) inv lead len lag by simp
qed

lemma detect_const_scores:
  assumes "0 < ws" "0 < wfac" "0 < lf" "rounding rnd" "wfac * ws * c \<le> 2 ^ 53"
    and "detect rnd ppf (AssumptionFreeAA_init ws wfac lf lgf) (replicate m (Num (real c)))
         = Inr (res, d')"
    and "a \<in> set res"
  shows "score a = (if ws = 1 then 0 else ((real lf - real lgf) / real (max lf lgf))\<^sup>2 / 16)"
proof -
  let ?v = "Num (real c)"
  let ?I = "\<lambda>d. word_size d = ws \<and> window_size d = wfac * ws \<and> alphabet d = ''abcd''
        \<and> recursion_level d = 2
        \<and> lead_maxlen d = lf * (wfac * ws) \<and> lag_maxlen d = lgf * (wfac * ws)
        \<and> length (lead_window d) \<le> lead_maxlen d
        \<and> set (lead_window d) \<subseteq> {?v} \<and> set (lag_window d) \<subseteq> {?v}"
  let ?d0 = "AssumptionFreeAA_init ws wfac lf lgf"
  have run: "detect_loop rnd ppf ?d0 (replicate m ?v) [] = Inr (res, d')"
    using assms(6) by (simp only: detect_def)
  have I0: "?I ?d0" by (simp add: init_fields)
  have pres: "\<forall>d x d2 r. ?I d \<longrightarrow> x \<in> set (replicate m ?v)
                \<longrightarrow> detect_step rnd ppf d x = Inr (d2, r) \<longrightarrow> ?I d2"
  proof (intro allI impI)
    fix d x d2 r
    assume I: "?I d" and x: "x \<in> set (replicate m ?v)"
      and st: "detect_step rnd ppf d x = Inr (d2, r)"
    have "x = ?v" using x by simp
    then have "detect_step rnd ppf d ?v = Inr (d2, r)" using st by simp
    from detect_step_const_invariant[OF assms(1,2,3) I this] show "?I d2" .
  qed
  have "\<exists>new. res = [] @ new
           \<and> (\<forall>a\<in>set new. \<exists>d2 nf. ?I d2
                  \<and> length (lead_window d2) = lead_maxlen d2
                  \<and> length (lag_window d2) = lag_maxlen d2
                  \<and> scoring_step rnd ppf d2 = Inr (a, nf))"
    by (rule detect_loop_emitted[OF run, of ?I, OF I0 pres])
  then obtain d2 nf where d2: "?I d2"
    "length (lead_window d2) = lead_maxlen d2" "length (lag_window d2) = lag_maxlen d2"
    "scoring_step rnd ppf d2 = Inr (a, nf)"
    using assms(7) by auto
  have "replicate (length (lead_window d2)) ?v = lead_window d2"
    using d2(1) by (intro replicate_length_same) auto
  then have lead: "lead_window d2 = replicate (lf * window_size d2) ?v"
    using d2(1,2) by simp
  have "replicate (length (lag_window d2)) ?v = lag_window d2"
    using d2(1) by (intro replicate_length_same) auto
  then have lag: "lag_window d2 = replicate (lgf * window_size d2) ?v"
    using d2(1,3) by simp
  have cfg: "0 < word_size d2" "window_size d2 = wfac * word_size d2"
    "alphabet d2 = ''abcd''" "recursion_level d2 = 2" "window_size d2 * c \<le> 2 ^ 53"
    using d2(1) assms(1,5) by simp_all
  from const_score[OF cfg(1,2) assms(2) cfg(3,4) lead lag d2(4) assms(4) cfg(5)]
  show ?thesis using d2(1) by simp
qed

text \<open>
  Claim C4, as amended. A freshly constructed detector with positive parameters (and a
  window of at most \<open>2\<^sup>5\<^sup>3 / 5\<close> datapoints), fed a series of length
  \<open>universe_size + 50\<close> whose every datapoint is \<open>5.0\<close>, emits 51 records, each with score
  \<open>((lead_window_factor - lag_window_factor) / max lead_window_factor lag_window_factor)\<^sup>2 / 16\<close>
  when \<open>word_size > 1\<close>, and 0 when \<open>word_size = 1\<close>. The sums of a window of such
  datapoints are exact, so the zero-standard-deviation branch is taken and it does map
  every sub-segment to the same letter; but the lead window holds \<open>lead_window_factor\<close>
  words and the lag window \<open>lag_window_factor\<close>, so the count of the doubled letter
  differs between the two tables unless the factors are equal, and both are divided by
  the one common maximum. All scores are 0 exactly when
  \<open>lead_window_factor = lag_window_factor\<close> or \<open>word_size = 1\<close>.

  The counterexample is the default configuration (word size 10, window factor 100,
  lead factor 3, lag factor 30) on 33050 datapoints equal to 5: the counts of the
  doubled letter are 27 and 270, the cells 27/270 and 1, and every one of the 51
  scores is \<open>(9/10)\<^sup>2 / 16 = 81/1600\<close>.
\<close>

theorem constant_series_scores:
  assumes "0 < ws" "0 < wfac" "0 < lf" "0 < lgf"
    and "rounding rnd" "wfac * ws * 5 \<le> 2 ^ 53"
  shows "\<exists>res d'.
           detect rnd ppf (AssumptionFreeAA_init ws wfac lf lgf)
             (replicate (universe_size (AssumptionFreeAA_init ws wfac lf lgf) + 50) (Num 5))
           = Inr (res, d')
         \<and> length res = 51
         \<and> (\<forall>a\<in>set res.
               score a = (if ws = 1 then 0
                          else ((real lf - real lgf) / real (max lf lgf))\<^sup>2 / 16))
         \<and> ((\<forall>a\<in>set res. score a = 0) \<longleftrightarrow> ws = 1 \<or> lf = lgf)"
proof -
  let ?d0 = "AssumptionFreeAA_init ws wfac lf lgf"
  let ?U = "(lf + lgf) * wfac * ws"
  let ?s = "if ws = 1 then 0 else ((real lf - real lgf) / real (max lf lgf))\<^sup>2 / 16"
  let ?xs = "replicate (?U + 50) (Num 5)"
  have U: "universe_size ?d0 = ?U" by (rule init_fields(3))
  have Upos: "0 < ?U" using assms by simp
  have five: "Num 5 = Num (real 5)" by simp
  have "wfac * ws \<le> wfac * ws * 5" by simp
  then have W: "wfac * ws \<le> 2 ^ 53" using assms(6) by linarith
  have "fl_within (2 ^ 400) (Num 5)" by (simp add: fl_within_def)
  then have b: "\<forall>x\<in>set ?xs. fl_within (2 ^ 400) x" by simp
  have h: "length ?xs < ?U
           \<or> (rounding rnd \<and> wfac * ws \<le> 2 ^ 53 \<and> (\<forall>x\<in>set ?xs. fl_within (2 ^ 400) x))"
    using assms(5) W b by blast
  from detect_fresh_count[OF assms(1,2,3) h, of ppf]
  obtain res d' where r: "detect rnd ppf ?d0 ?xs = Inr (res, d')"
    "length res = length ?xs - (?U - 1)"
    by blast
  have "u + 50 - (u - 1) = 51" if "0 < u" for u :: nat
    using that by arith
  from this[OF Upos] have len: "length res = 51"
    using r(2) by (simp only: length_replicate)
  have r': "detect rnd ppf ?d0 (replicate (?U + 50) (Num (real 5))) = Inr (res, d')"
    using r(1) by (simp only: five)
  have sc: "score a = ?s" if "a \<in> set res" for a
    using detect_const_scores[OF assms(1,2,3,5,6) r' that] .
  have zero: "?s = 0 \<longleftrightarrow> ws = 1 \<or> lf = lgf"
    using assms(3) by (auto simp: max_def)
  have ne: "res \<noteq> []" using len by auto
  have "(\<forall>a\<in>set res. score a = 0) \<longleftrightarrow> ?s = 0"
  proof
    assume "\<forall>a\<in>set res. score a = 0"
    moreover have "hd res \<in> set res" using ne by simp
    ultimately show "?s = 0" using sc by metis
  next
    assume "?s = 0"
    then show "\<forall>a\<in>set res. score a = 0" using sc by simp
  qed
  then have "(\<forall>a\<in>set res. score a = 0) \<longleftrightarrow> ws = 1 \<or> lf = lgf"
    using zero by simp
  then show ?thesis using r(1) len sc unfolding U by blast
qed

theorem constant_series_scores_witness:
  "rounding rnd_exact
   \<and> (\<exists>res d'.
        detect rnd_exact ppf_quartiles (AssumptionFreeAA_init 2 1 3 3)
          (replicate (universe_size (AssumptionFreeAA_init 2 1 3 3) + 50) (Num 5))
        = Inr (res, d')
      \<and> length res = 51 \<and> list_all (\<lambda>a. score a = 0) res)"
proof -
  have p: "(0::nat) < 2" "(0::nat) < 1" "(0::nat) < 3" "(0::nat) < 3" by simp_all
  have w: "(1::nat) * 2 * 5 \<le> 2 ^ 53" by simp
  from constant_series_scores[OF p rounding_rnd_exact w, of ppf_quartiles]
  obtain res d' where
    "detect rnd_exact ppf_quartiles (AssumptionFreeAA_init 2 1 3 3)
       (replicate (universe_size (AssumptionFreeAA_init 2 1 3 3) + 50) (Num 5)) = Inr (res, d')"
    "length res = 51"
    "(\<forall>a\<in>set res. score a = 0) \<longleftrightarrow> (2::nat) = 1 \<or> (3::nat) = 3"
    by blast
  then show ?thesis using rounding_rnd_exact unfolding list_all_iff by blast
qed

theorem constant_series_counterexample:
  "universe_size (AssumptionFreeAA_init 10 100 3 30) + 50 = 33050
   \<and> (\<exists>res d'.
         detect rnd_exact ppf_quartiles (AssumptionFreeAA_init 10 100 3 30)
           (replicate 33050 (Num 5))
         = Inr (res, d')
       \<and> length res = 51 \<and> list_all (\<lambda>a. score a = 81 / 1600) res)"
proof -
  have p: "(0::nat) < 10" "(0::nat) < 100" "(0::nat) < 3" by simp_all
  have u: "universe_size (AssumptionFreeAA_init 10 100 3 30) + 50 = 33050"
    by (simp only: init_fields(3)) simp
  have l: "length (replicate 33050 (Num (real 5))) - ((3 + 30) * 100 * 10 - 1) = 51"
    by (simp only: length_replicate) simp
  have v: "(if (10::nat) = 1 then 0
            else ((real 3 - real 30) / real (max 3 30))\<^sup>2 / 16) = (81 / 1600 :: real)"
    by (simp add: power2_eq_square)
  have w: "(100::nat) * 10 * 5 \<le> 2 ^ 53" "(100::nat) * 10 \<le> 2 ^ 53" by simp_all
  have "fl_within (2 ^ 400) (Num (real 5))" by (simp add: fl_within_def)
  then have b: "\<forall>x\<in>set (replicate n (Num (real 5))). fl_within (2 ^ 400) x" for n by simp
  have h: "length (replicate 33050 (Num (real 5))) < (3 + 30) * 100 * 10
         \<or> (rounding rnd_exact \<and> (100::nat) * 10 \<le> 2 ^ 53
            \<and> (\<forall>x\<in>set (replicate 33050 (Num (real 5))). fl_within (2 ^ 400) x))"
    using rounding_rnd_exact w(2) b[of 33050] by blast
  from detect_fresh_count[OF p h, of ppf_quartiles]
  obtain res d' where r:
    "detect rnd_exact ppf_quartiles (AssumptionFreeAA_init 10 100 3 30)
       (replicate 33050 (Num (real 5))) = Inr (res, d')"
    "length res = length (replicate 33050 (Num (real 5))) - ((3 + 30) * 100 * 10 - 1)"
    by blast
  have len: "length res = 51" using r(2) by (simp only: l)
  have "score a = 81 / 1600" if "a \<in> set res" for a
    using detect_const_scores[OF p rounding_rnd_exact w(1) r(1) that] by (simp only: v)
  then have "list_all (\<lambda>a. score a = 81 / 1600) res"
    unfolding list_all_iff by blast
  moreover have five: "Num (real 5) = Num 5" by simp
  ultimately show ?thesis using u r(1) len unfolding five by blast
qed

end
